theory Spec2Isabelle
  imports Main
begin

section \<open>Python strings\<close>

text \<open>
  The program is Python 2: a \<open>str\<close> is a sequence of bytes, modelled as \<open>string\<close>
  (a \<open>char list\<close>). Only the string methods the program calls are modelled.
\<close>

definition newline :: char where
  "newline = CHR 0x0A"

definition nul :: char where
  "nul = CHR 0x00"

text \<open>\<open>s.find(c)\<close> and \<open>s.rfind(c)\<close> for a one-character \<open>c\<close>: the lowest (highest)
  index of \<open>c\<close> in \<open>s\<close>, or \<open>-1\<close>.\<close>

fun find_from :: "nat \<Rightarrow> char \<Rightarrow> string \<Rightarrow> int" where
  "find_from i c [] = -1"
| "find_from i c (x # xs) = (if x = c then int i else find_from (Suc i) c xs)"

definition py_find :: "string \<Rightarrow> char \<Rightarrow> int" where
  "py_find s c = find_from 0 c s"

fun rfind_from :: "nat \<Rightarrow> int \<Rightarrow> char \<Rightarrow> string \<Rightarrow> int" where
  "rfind_from i best c [] = best"
| "rfind_from i best c (x # xs) = rfind_from (Suc i) (if x = c then int i else best) c xs"

definition py_rfind :: "string \<Rightarrow> char \<Rightarrow> int" where
  "py_rfind s c = rfind_from 0 (-1) c s"

text \<open>The slices \<open>s[i:]\<close> and \<open>s[:i]\<close>; a negative index counts from the end and is
  clipped at the start of the string.\<close>

definition slice_from :: "string \<Rightarrow> int \<Rightarrow> string" where
  "slice_from s i = (if 0 \<le> i then drop (nat i) s else drop (nat (int (length s) + i)) s)"

definition slice_to :: "string \<Rightarrow> int \<Rightarrow> string" where
  "slice_to s i = (if 0 \<le> i then take (nat i) s else take (nat (int (length s) + i)) s)"

fun startswith :: "string \<Rightarrow> string \<Rightarrow> bool" where
  "startswith s [] = True"
| "startswith [] (p # ps) = False"
| "startswith (x # xs) (p # ps) = (x = p \<and> startswith xs ps)"

definition endswith_char :: "string \<Rightarrow> char \<Rightarrow> bool" where
  "endswith_char s c = (s \<noteq> [] \<and> last s = c)"

text \<open>\<open>s.strip(chars)\<close> removes the leading and the trailing characters that occur in
  \<open>chars\<close>; \<open>s.strip()\<close> removes the whitespace of a Python 2 \<open>str\<close>: space, tab, line
  feed, carriage return, vertical tab and form feed.\<close>

definition lstrip_chars :: "string \<Rightarrow> string \<Rightarrow> string" where
  "lstrip_chars s chars = dropWhile (\<lambda>c. c \<in> set chars) s"

definition rstrip_chars :: "string \<Rightarrow> string \<Rightarrow> string" where
  "rstrip_chars s chars = rev (dropWhile (\<lambda>c. c \<in> set chars) (rev s))"

definition strip_chars :: "string \<Rightarrow> string \<Rightarrow> string" where
  "strip_chars s chars = rstrip_chars (lstrip_chars s chars) chars"

definition whitespace :: string where
  "whitespace = [CHR 0x20, CHR 0x09, CHR 0x0A, CHR 0x0D, CHR 0x0B, CHR 0x0C]"

definition strip :: "string \<Rightarrow> string" where
  "strip s = strip_chars s whitespace"

subsection \<open>\<open>os.path\<close>\<close>

definition sep :: char where
  "sep = CHR ''/''"

text \<open>\<open>os.path.join(a, b)\<close> of \<open>posixpath\<close>, for two arguments.\<close>

definition join :: "string \<Rightarrow> string \<Rightarrow> string" where
  "join a b =
     (if startswith b [sep] then b
      else if a = [] \<or> endswith_char a sep then a @ b
      else a @ [sep] @ b)"

section \<open>The regular expressions\<close>

text \<open>
  The fragment of Python's \<open>re\<close> syntax that the four patterns of \<open>structure.py\<close> use:
  \<open>^\<close>, \<open>$\<close>, \<open>\d\<close>, a literal character, \<open>.\<close>, concatenation and \<open>( )*\<close>.
\<close>

datatype regex =
    Bol
  | Eol
  | Digit
  | Chr char
  | AnyChar
  | Seq regex regex
  | Star regex

definition isdigit :: "char \<Rightarrow> bool" where
  "isdigit c = (c \<in> set ''0123456789'')"

text \<open>
  A matcher state is the number of characters consumed so far and the rest of the
  subject. \<open>rx_step r st\<close> lists the states in which a match of \<open>r\<close> that starts in \<open>st\<close>
  can end, in the order in which the backtracking matcher tries them (a greedy star
  tries one more round before it tries to stop).
  \<^item> \<open>^\<close> holds at the start of the subject (no \<open>MULTILINE\<close> flag is set);
  \<^item> \<open>$\<close> holds at the end of the subject and just before a line feed that ends it;
  \<^item> \<open>\d\<close> is \<open>[0-9]\<close> for a byte string without the \<open>UNICODE\<close> flag;
  \<^item> \<open>.\<close> is any character but the line feed (no \<open>DOTALL\<close> flag is set).
  A round of a star that consumes nothing is not repeated; the bound on the rounds is
  the length of the rest, which a consuming round shortens.
\<close>

type_synonym rx_state = "nat \<times> string"

primrec star_iter :: "nat \<Rightarrow> (rx_state \<Rightarrow> rx_state list) \<Rightarrow> rx_state \<Rightarrow> rx_state list" where
  "star_iter 0 f st = [st]"
| "star_iter (Suc n) f st =
     concat (map (star_iter n f) (filter (\<lambda>st'. length (snd st') < length (snd st)) (f st)))
       @ [st]"

primrec rx_step :: "regex \<Rightarrow> rx_state \<Rightarrow> rx_state list" where
  "rx_step Bol st = (if fst st = 0 then [st] else [])"
| "rx_step Eol st = (if snd st = [] \<or> snd st = [newline] then [st] else [])"
| "rx_step Digit st =
     (case snd st of [] \<Rightarrow> [] | c # cs \<Rightarrow> if isdigit c then [(Suc (fst st), cs)] else [])"
| "rx_step (Chr a) st =
     (case snd st of [] \<Rightarrow> [] | c # cs \<Rightarrow> if c = a then [(Suc (fst st), cs)] else [])"
| "rx_step AnyChar st =
     (case snd st of [] \<Rightarrow> [] | c # cs \<Rightarrow> if c \<noteq> newline then [(Suc (fst st), cs)] else [])"
| "rx_step (Seq r1 r2) st = concat (map (rx_step r2) (rx_step r1 st))"
| "rx_step (Star r) st = star_iter (length (snd st)) (rx_step r) st"

text \<open>\<open>pattern.match(s)\<close> as a truth value: a match object when the pattern matches at
  the start of \<open>s\<close>, \<open>None\<close> otherwise.\<close>

definition re_match :: "regex \<Rightarrow> string \<Rightarrow> bool" where
  "re_match r s = (rx_step r (0, s) \<noteq> [])"

text \<open>The concatenation of a non-empty sequence of expressions, \<open>r\<close> first.\<close>

fun seqs :: "regex \<Rightarrow> regex list \<Rightarrow> regex" where
  "seqs r [] = r"
| "seqs r (r' # rs) = Seq r (seqs r' rs)"

text \<open>
  \<^verbatim>\<open>IS_BUS = re.compile("^usb\d$")\<close>,
  \<^verbatim>\<open>IS_BUS_PORT = re.compile("^\d-\d$")\<close>,
  \<^verbatim>\<open>IS_SUB_PORT = re.compile("^\d-\d(\.\d)*$")\<close>,
  \<^verbatim>\<open>IS_INTERFACE = re.compile("^\d-\d(\.\d)*:\d.\d$")\<close>.
\<close>

definition IS_BUS :: regex where
  "IS_BUS = seqs Bol [Chr CHR ''u'', Chr CHR ''s'', Chr CHR ''b'', Digit, Eol]"

definition IS_BUS_PORT :: regex where
  "IS_BUS_PORT = seqs Bol [Digit, Chr CHR ''-'', Digit, Eol]"

definition IS_SUB_PORT :: regex where
  "IS_SUB_PORT =
     seqs Bol [Digit, Chr CHR ''-'', Digit, Star (Seq (Chr CHR ''.'') Digit), Eol]"

definition IS_INTERFACE :: regex where
  "IS_INTERFACE =
     seqs Bol [Digit, Chr CHR ''-'', Digit, Star (Seq (Chr CHR ''.'') Digit),
           Chr CHR '':'', Digit, AnyChar, Digit, Eol]"

section \<open>The file system\<close>

text \<open>
  The program reads the file system through \<open>os.listdir\<close>, \<open>os.path.isdir\<close> and
  \<open>open(...).read()\<close>, each on a path string. A state of the file system is what these
  three calls answer: the paths that are directories, each with its listing (\<open>None\<close>
  when the directory cannot be listed), and the paths that are files, each with its
  content (\<open>None\<close> when the file cannot be read).
\<close>

record filesystem =
  directories :: "(string \<times> string list option) list"
  files :: "(string \<times> string option) list"

datatype errno = ENOENT | EACCES | ENOTDIR | EISDIR

datatype error =
    KeyError string
  | ValueError string
  | OSError errno
  | IOError errno

definition isdir :: "filesystem \<Rightarrow> string \<Rightarrow> bool" where
  "isdir fs path = (map_of (directories fs) path \<noteq> None)"

definition listdir :: "filesystem \<Rightarrow> string \<Rightarrow> error + string list" where
  "listdir fs path =
     (case map_of (directories fs) path of
        Some (Some entries) \<Rightarrow> Inr entries
      | Some None \<Rightarrow> Inl (OSError EACCES)
      | None \<Rightarrow> Inl (OSError (if map_of (files fs) path \<noteq> None then ENOTDIR else ENOENT)))"

text \<open>\<open>open(path, 'r')\<close> followed by \<open>read()\<close>, the file closed again.\<close>

definition open_read :: "filesystem \<Rightarrow> string \<Rightarrow> error + string" where
  "open_read fs path =
     (if isdir fs path then Inl (IOError EISDIR)
      else case map_of (files fs) path of
        Some (Some content) \<Rightarrow> Inr content
      | Some None \<Rightarrow> Inl (IOError EACCES)
      | None \<Rightarrow> Inl (IOError ENOENT))"

section \<open>The nodes of \<open>structure.py\<close>\<close>

text \<open>
  A node holds its \<open>name\<close> (the key it was fetched with), its \<open>parent\<close> and its
  \<open>fs_path\<close>; the root \<open>USB\<close> holds its \<open>fs_path\<close> only. A key is modelled by the
  text that \<open>str.format\<close> renders for it.
\<close>

datatype node =
    USB string
  | Bus string node string
  | Port string node string

datatype interface = Interface string

fun fs_path :: "node \<Rightarrow> string" where
  "fs_path (USB p) = p"
| "fs_path (Bus n par p) = p"
| "fs_path (Port n par p) = p"

text \<open>\<open>Container.name\<close> is \<open>None\<close> where the constructor does not set it.\<close>

fun name :: "node \<Rightarrow> string option" where
  "name (USB p) = None"
| "name (Bus n par p) = Some n"
| "name (Port n par p) = Some n"

fun parent :: "node \<Rightarrow> node option" where
  "parent (USB p) = None"
| "parent (Bus n par p) = Some par"
| "parent (Port n par p) = Some par"

fun iface_path :: "interface \<Rightarrow> string" where
  "iface_path (Interface p) = p"

text \<open>What \<open>'{0}'.format(x)\<close> renders for a string or for \<open>None\<close>.\<close>

fun format_opt :: "string option \<Rightarrow> string" where
  "format_opt None = ''None''"
| "format_opt (Some s) = s"

text \<open>\<open>FSLocation.fs_name\<close>: the part of the path after its last separator; the
  property falls off its end, returning \<open>None\<close>, when the path has no separator.\<close>

definition fs_name :: "string \<Rightarrow> string option" where
  "fs_name path =
     (if py_find path sep > -1 then Some (slice_from path (py_rfind path sep + 1)) else None)"

subsection \<open>Constructors\<close>

definition USB_init :: "string \<Rightarrow> error + node" where
  "USB_init path = Inr (USB path)"

definition Bus_init :: "filesystem \<Rightarrow> string \<Rightarrow> node \<Rightarrow> string \<Rightarrow> error + node" where
  "Bus_init fs n par path =
     (if \<not> isdir fs path then Inl (ValueError ''Invalid path given'')
      else Inr (Bus n par path))"

definition Port_init :: "filesystem \<Rightarrow> string \<Rightarrow> node \<Rightarrow> string \<Rightarrow> error + node" where
  "Port_init fs n par path =
     (if \<not> isdir fs path then Inl (ValueError ''Invalid path given'')
      else Inr (Port n par path))"

definition Interface_init :: "filesystem \<Rightarrow> string \<Rightarrow> error + interface" where
  "Interface_init fs path =
     (if \<not> isdir fs path then Inl (ValueError ''Invalid path given'')
      else Inr (Interface path))"

subsection \<open>\<open>__iter__\<close> and \<open>__getitem__\<close>\<close>

text \<open>Each \<open>__iter__\<close> is a generator over \<open>os.listdir(self.fs_path)\<close>; the model
  returns the keys it yields when run to its end, or the error of \<open>os.listdir\<close>.\<close>

definition USB_iter :: "filesystem \<Rightarrow> node \<Rightarrow> error + string list" where
  "USB_iter fs self =
     (case listdir fs (fs_path self) of
        Inl e \<Rightarrow> Inl e
      | Inr children \<Rightarrow>
          Inr (map (\<lambda>child. slice_from child 3) (filter (re_match IS_BUS) children)))"

definition USB_getitem :: "filesystem \<Rightarrow> node \<Rightarrow> string \<Rightarrow> error + node" where
  "USB_getitem fs self key =
     (let bus_path = join (fs_path self) (''usb'' @ key)
      in if \<not> isdir fs bus_path then Inl (KeyError key)
         else Bus_init fs key self bus_path)"

definition Bus_iter :: "filesystem \<Rightarrow> node \<Rightarrow> error + string list" where
  "Bus_iter fs self =
     (case listdir fs (fs_path self) of
        Inl e \<Rightarrow> Inl e
      | Inr children \<Rightarrow>
          Inr (map (\<lambda>child. slice_from child (py_find child CHR ''-'' + 1))
                 (filter (re_match IS_BUS_PORT) children)))"

definition Bus_getitem :: "filesystem \<Rightarrow> node \<Rightarrow> string \<Rightarrow> error + node" where
  "Bus_getitem fs self key =
     (let port_path = join (fs_path self) (format_opt (name self) @ ''-'' @ key)
      in if \<not> isdir fs port_path then Inl (KeyError key)
         else Port_init fs key self port_path)"

definition Port_iter :: "filesystem \<Rightarrow> node \<Rightarrow> error + string list" where
  "Port_iter fs self =
     (case listdir fs (fs_path self) of
        Inl e \<Rightarrow> Inl e
      | Inr children \<Rightarrow>
          Inr (map (\<lambda>child. slice_from child (py_rfind child CHR ''.'' + 1))
                 (filter (re_match IS_SUB_PORT) children)))"

definition Port_getitem :: "filesystem \<Rightarrow> node \<Rightarrow> string \<Rightarrow> error + node" where
  "Port_getitem fs self key =
     (let port_path = join (fs_path self) (format_opt (fs_name (fs_path self)) @ ''.'' @ key)
      in if \<not> isdir fs port_path then Inl (KeyError key)
         else Port_init fs key self port_path)"

text \<open>Method dispatch on the class of \<open>self\<close>.\<close>

fun node_iter :: "filesystem \<Rightarrow> node \<Rightarrow> error + string list" where
  "node_iter fs (USB p) = USB_iter fs (USB p)"
| "node_iter fs (Bus n par p) = Bus_iter fs (Bus n par p)"
| "node_iter fs (Port n par p) = Port_iter fs (Port n par p)"

fun node_getitem :: "filesystem \<Rightarrow> node \<Rightarrow> string \<Rightarrow> error + node" where
  "node_getitem fs (USB p) key = USB_getitem fs (USB p) key"
| "node_getitem fs (Bus n par p) key = Bus_getitem fs (Bus n par p) key"
| "node_getitem fs (Port n par p) key = Port_getitem fs (Port n par p) key"

text \<open>\<open>Container.keys\<close> is \<open>list(self.__iter__())\<close>; \<open>Container.values\<close> is
  \<open>[self[key] for key in self]\<close>, which the first error of a \<open>self[key]\<close> ends.\<close>

definition Container_keys :: "filesystem \<Rightarrow> node \<Rightarrow> error + string list" where
  "Container_keys fs self = node_iter fs self"

fun getitems :: "filesystem \<Rightarrow> node \<Rightarrow> string list \<Rightarrow> error + node list" where
  "getitems fs self [] = Inr []"
| "getitems fs self (key # keys) =
     (case node_getitem fs self key of
        Inl e \<Rightarrow> Inl e
      | Inr child \<Rightarrow>
          (case getitems fs self keys of
             Inl e \<Rightarrow> Inl e
           | Inr children \<Rightarrow> Inr (child # children)))"

definition Container_values :: "filesystem \<Rightarrow> node \<Rightarrow> error + node list" where
  "Container_values fs self =
     (case node_iter fs self of
        Inl e \<Rightarrow> Inl e
      | Inr keys \<Rightarrow> getitems fs self keys)"

subsection \<open>\<open>InterfaceProvider.interfaces\<close>\<close>

text \<open>The loop over the listing, with the list \<open>ifaces\<close> it appends to.\<close>

fun interfaces_loop ::
  "filesystem \<Rightarrow> string \<Rightarrow> string list \<Rightarrow> interface list \<Rightarrow> error + interface list" where
  "interfaces_loop fs path [] ifaces = Inr ifaces"
| "interfaces_loop fs path (child # rest) ifaces =
     (if re_match IS_INTERFACE child then
        (case Interface_init fs (join path child) of
           Inl e \<Rightarrow> Inl e
         | Inr iface \<Rightarrow> interfaces_loop fs path rest (ifaces @ [iface]))
      else interfaces_loop fs path rest ifaces)"

definition interfaces :: "filesystem \<Rightarrow> node \<Rightarrow> error + interface list" where
  "interfaces fs self =
     (case listdir fs (fs_path self) of
        Inl e \<Rightarrow> Inl e
      | Inr children \<Rightarrow> interfaces_loop fs (fs_path self) children [])"

text \<open>\<open>isinstance(node, InterfaceProvider)\<close>: \<open>Bus\<close> and \<open>Port\<close> derive from it.\<close>

fun is_InterfaceProvider :: "node \<Rightarrow> bool" where
  "is_InterfaceProvider (USB p) = False"
| "is_InterfaceProvider (Bus n par p) = True"
| "is_InterfaceProvider (Port n par p) = True"

section \<open>Attributes stored in files\<close>

text \<open>The \<open>__file_attributes__\<close> of the three classes.\<close>

definition Bus_file_attributes :: "string list" where
  "Bus_file_attributes =
     [''authorized'', ''authorized_default'', ''avoid_reset_quirk'', ''bcdDevice'',
      ''bConfigurationValue'', ''bDeviceClass'', ''bDeviceProtocol'', ''bDeviceSubClass'',
      ''bmAttributes'', ''bMaxPacketSize0'', ''bMaxPower'', ''bNumConfigurations'',
      ''bNumInterfaces'', ''busnum'', ''dev'', ''devnum'', ''devpath'', ''idProduct'',
      ''idVendor'', ''ltm_capable'', ''manufacturer'', ''maxchild'', ''product'', ''quirks'',
      ''removable'', ''serial'', ''speed'', ''uevent'', ''urbnum'', ''version'']"

definition Port_file_attributes :: "string list" where
  "Port_file_attributes =
     [''authorized'', ''avoid_reset_quirk'', ''bcdDevice'',
      ''bConfigurationValue'', ''bDeviceClass'', ''bDeviceProtocol'', ''bDeviceSubClass'',
      ''bmAttributes'', ''bMaxPacketSize0'', ''bMaxPower'', ''bNumConfigurations'',
      ''bNumInterfaces'', ''busnum'', ''dev'', ''devnum'', ''devpath'', ''idProduct'',
      ''idVendor'', ''ltm_capable'', ''manufacturer'', ''maxchild'', ''product'', ''quirks'',
      ''removable'', ''serial'', ''speed'', ''uevent'', ''urbnum'', ''version'']"

definition Interface_file_attributes :: "string list" where
  "Interface_file_attributes =
     [''bAlternateSetting'', ''bInterfaceClass'', ''bInterfaceNumber'',
      ''bInterfaceProtocol'', ''bInterfaceSubClass'', ''bNumEndpoints'', ''interface'',
      ''modalias'', ''supports_autosuspend'', ''uevent'']"

text \<open>
  \<open>FileAttributes.__getattribute__\<close>, for an object with the given
  \<open>__file_attributes__\<close> and \<open>fs_path\<close>. A name outside the list goes to
  \<open>object.__getattribute__\<close>, which is not modelled further (\<open>ObjectAttribute\<close>). For a
  name in the list the result is the value read, \<open>FileValue (Some v)\<close>, or \<open>None\<close>,
  \<open>FileValue None\<close>; the handler catches \<open>IOError\<close> and nothing else.
\<close>

datatype attribute = FileValue "string option" | ObjectAttribute

definition FileAttributes_getattribute ::
  "filesystem \<Rightarrow> string list \<Rightarrow> string \<Rightarrow> string \<Rightarrow> error + attribute" where
  "FileAttributes_getattribute fs file_attributes path attr =
     (if attr \<in> set file_attributes then
        (case open_read fs (join path attr) of
           Inr content \<Rightarrow> Inr (FileValue (Some (strip (strip_chars content [newline]))))
         | Inl (IOError n) \<Rightarrow> Inr (FileValue None)
         | Inl e \<Rightarrow> Inl e)
      else Inr ObjectAttribute)"

fun file_attributes_of :: "node \<Rightarrow> string list" where
  "file_attributes_of (USB p) = []"
| "file_attributes_of (Bus n par p) = Bus_file_attributes"
| "file_attributes_of (Port n par p) = Port_file_attributes"

definition node_getattribute :: "filesystem \<Rightarrow> node \<Rightarrow> string \<Rightarrow> error + attribute" where
  "node_getattribute fs self attr =
     FileAttributes_getattribute fs (file_attributes_of self) (fs_path self) attr"

definition Interface_getattribute ::
  "filesystem \<Rightarrow> interface \<Rightarrow> string \<Rightarrow> error + attribute" where
  "Interface_getattribute fs self attr =
     FileAttributes_getattribute fs Interface_file_attributes (iface_path self) attr"

text \<open>\<open>DeviceNode.idVendor\<close> of \<open>device.py\<close>, on the \<open>fs_path\<close> of the device node:
  no handler, and the characters stripped are the line feed and NUL.\<close>

definition DeviceNode_idVendor :: "filesystem \<Rightarrow> string \<Rightarrow> error + string" where
  "DeviceNode_idVendor fs path =
     (case open_read fs (join path ''idVendor'') of
        Inl e \<Rightarrow> Inl e
      | Inr content \<Rightarrow> Inr (strip_chars content [newline, nul]))"

section \<open>\<open>Interface.tty\<close>\<close>

text \<open>
  One run of the loop of \<open>match_tty\<close> over a listing ends in one of three ways: the
  listing is exhausted and the function falls off its end, an entry is returned, or
  the function calls itself on a subdirectory.
\<close>

datatype tty_exit = Exhausted | Return string | Descend string

fun tty_scan :: "string \<Rightarrow> string list \<Rightarrow> tty_exit" where
  "tty_scan path [] = Exhausted"
| "tty_scan path (child # rest) =
     (if \<not> startswith child ''tty'' then tty_scan path rest
      else if child \<noteq> ''tty'' then Return child
      else Descend (join path child))"

text \<open>The recursion has no bound of its own; a call that does not return is \<open>None\<close>.\<close>

partial_function (option) match_tty :: "filesystem \<Rightarrow> string \<Rightarrow> (error + string option) option" where
  "match_tty fs path =
     (case listdir fs path of
        Inl e \<Rightarrow> Some (Inl e)
      | Inr children \<Rightarrow>
          (case tty_scan path children of
             Exhausted \<Rightarrow> Some (Inr None)
           | Return child \<Rightarrow> Some (Inr (Some child))
           | Descend sub \<Rightarrow> match_tty fs sub))"

definition Interface_tty :: "filesystem \<Rightarrow> interface \<Rightarrow> (error + string option) option" where
  "Interface_tty fs self = match_tty fs (iface_path self)"

section \<open>\<open>AggregatedInterfaces.aggregated_interfaces\<close>\<close>

text \<open>
  The inner loop \<open>for iface in child.interfaces\<close>, threading the list \<open>ifaces\<close> that the
  program appends to. With \<open>tty\<close> set, an interface whose \<open>tty\<close> is \<open>None\<close> is skipped.
\<close>

fun append_ifaces ::
  "filesystem \<Rightarrow> bool \<Rightarrow> interface list \<Rightarrow> interface list \<Rightarrow> (error + interface list) option" where
  "append_ifaces fs tty [] ifaces = Some (Inr ifaces)"
| "append_ifaces fs tty (iface # rest) ifaces =
     (if tty then
        (case Interface_tty fs iface of
           None \<Rightarrow> None
         | Some (Inl e) \<Rightarrow> Some (Inl e)
         | Some (Inr None) \<Rightarrow> append_ifaces fs tty rest ifaces
         | Some (Inr (Some t)) \<Rightarrow> append_ifaces fs tty rest (ifaces @ [iface]))
      else append_ifaces fs tty rest (ifaces @ [iface]))"

definition collect_ifaces ::
  "filesystem \<Rightarrow> bool \<Rightarrow> node \<Rightarrow> interface list \<Rightarrow> (error + interface list) option" where
  "collect_ifaces fs tty child ifaces =
     (if is_InterfaceProvider child then
        (case interfaces fs child of
           Inl e \<Rightarrow> Some (Inl e)
         | Inr found \<Rightarrow> append_ifaces fs tty found ifaces)
      else Some (Inr ifaces))"

text \<open>
  The outer loop \<open>for child in node.values()\<close>; \<open>recurse\<close> stands for the recursive
  call \<open>aggregate(child, ifaces)\<close>.
\<close>

fun aggregate_children ::
  "(node \<Rightarrow> interface list \<Rightarrow> (error + interface list) option) \<Rightarrow> filesystem \<Rightarrow> bool \<Rightarrow>
   node list \<Rightarrow> interface list \<Rightarrow> (error + interface list) option" where
  "aggregate_children recurse fs tty [] ifaces = Some (Inr ifaces)"
| "aggregate_children recurse fs tty (child # rest) ifaces =
     (case collect_ifaces fs tty child ifaces of
        None \<Rightarrow> None
      | Some (Inl e) \<Rightarrow> Some (Inl e)
      | Some (Inr ifaces1) \<Rightarrow>
          (case recurse child ifaces1 of
             None \<Rightarrow> None
           | Some (Inl e) \<Rightarrow> Some (Inl e)
           | Some (Inr ifaces2) \<Rightarrow> aggregate_children recurse fs tty rest ifaces2))"

text \<open>
  The recursion of \<open>aggregate\<close> follows the file system, so the model counts the depth
  that is left: \<open>None\<close> when the depth is used up before the traversal has ended.
\<close>

primrec aggregate ::
  "nat \<Rightarrow> filesystem \<Rightarrow> bool \<Rightarrow> node \<Rightarrow> interface list \<Rightarrow> (error + interface list) option" where
  "aggregate 0 fs tty node ifaces = None"
| "aggregate (Suc depth) fs tty node ifaces =
     (case Container_values fs node of
        Inl e \<Rightarrow> Some (Inl e)
      | Inr children \<Rightarrow> aggregate_children (aggregate depth fs tty) fs tty children ifaces)"

text \<open>The method itself, with the depth allowed. \<open>AggregatedInterfaces\<close> is a base class
  of \<open>USB\<close> only, so \<open>self\<close> is the root when the program calls it.\<close>

definition aggregated_interfaces ::
  "nat \<Rightarrow> filesystem \<Rightarrow> node \<Rightarrow> bool \<Rightarrow> (error + interface list) option" where
  "aggregated_interfaces depth fs self tty = aggregate depth fs tty self []"

declare match_tty.simps [code]

section \<open>Shapes of names, for the statements\<close>

text \<open>
  The shapes that the statements below speak of, written out on the characters of a
  name and independent of the matcher.
  \<open>single_digit_port\<close>: one digit, a hyphen, one digit, and possibly a final line feed.
\<close>

fun single_digit_port :: "string \<Rightarrow> bool" where
  "single_digit_port [b, h, p] = (isdigit b \<and> h = CHR ''-'' \<and> isdigit p)"
| "single_digit_port [b, h, p, n] = (isdigit b \<and> h = CHR ''-'' \<and> isdigit p \<and> n = newline)"
| "single_digit_port s = False"

text \<open>\<open>dotted\<close>: a sequence of groups, each a dot and one digit.\<close>

fun dotted :: "string \<Rightarrow> bool" where
  "dotted [] = True"
| "dotted [c] = False"
| "dotted (c # d # rest) = (c = CHR ''.'' \<and> isdigit d \<and> dotted rest)"

text \<open>\<open>port_path\<close>: one digit, a hyphen, one digit, and a dotted sequence.\<close>

fun port_path :: "string \<Rightarrow> bool" where
  "port_path (b # h # p # rest) = (isdigit b \<and> h = CHR ''-'' \<and> isdigit p \<and> dotted rest)"
| "port_path s = False"

section \<open>Example file systems\<close>

text \<open>
  A tree under the default root: bus 1 with port 1, which has an interface and a
  nested port 2, whose interface has a \<open>tty\<close> directory holding \<open>ttyUSB0\<close>. The port
  has a vendor id file that ends in a line feed and a NUL, and a product file that
  cannot be read, and a directory where its \<open>uevent\<close> file would be.
\<close>

definition USB_FS_ROOT :: string where
  "USB_FS_ROOT = ''/sys/bus/usb/devices''"

definition fixture :: filesystem where
  "fixture = \<lparr>
     directories =
       [(''/sys/bus/usb/devices'', Some [''usb1'', ''1-1'']),
        (''/sys/bus/usb/devices/usb1'', Some [''1-1'', ''1-0:1.0'', ''power'']),
        (''/sys/bus/usb/devices/usb1/1-0:1.0'', Some []),
        (''/sys/bus/usb/devices/usb1/power'', Some []),
        (''/sys/bus/usb/devices/usb1/1-1'',
           Some [''1-1:1.0'', ''idVendor'', ''1-1.2'', ''product'', ''driver'']),
        (''/sys/bus/usb/devices/usb1/1-1/driver'', None),
        (''/sys/bus/usb/devices/usb1/1-1/uevent'', Some []),
        (''/sys/bus/usb/devices/usb1/1-1/1-1:1.0'', Some [''bInterfaceClass'']),
        (''/sys/bus/usb/devices/usb1/1-1/1-1.2'', Some [''1-1.2:1.0'']),
        (''/sys/bus/usb/devices/usb1/1-1/1-1.2/1-1.2:1.0'', Some [''ep_81'', ''tty'']),
        (''/sys/bus/usb/devices/usb1/1-1/1-1.2/1-1.2:1.0/tty'', Some [''ttyUSB0'']),
        (''/sys/bus/usb/devices/usb1/1-1/1-1.2/1-1.2:1.0/tty/ttyUSB0'', Some [])],
     files =
       [(''/sys/bus/usb/devices/usb1/1-1/idVendor'', Some (''0403'' @ [newline, nul])),
        (''/sys/bus/usb/devices/usb1/1-1/product'', None),
        (''/sys/bus/usb/devices/usb1/1-1/1-1:1.0/bInterfaceClass'', Some (''ff'' @ [newline]))]
   \<rparr>"

definition usb :: node where
  "usb = USB ''/sys/bus/usb/devices''"

definition bus1 :: node where
  "bus1 = Bus ''1'' usb ''/sys/bus/usb/devices/usb1''"

definition port1 :: node where
  "port1 = Port ''1'' bus1 ''/sys/bus/usb/devices/usb1/1-1''"

definition port12 :: node where
  "port12 = Port ''2'' port1 ''/sys/bus/usb/devices/usb1/1-1/1-1.2''"

text \<open>
  A hub with ten ports on bus 1: devices on port 1 and on port 10 of the bus, the first
  a hub with a device on its port 10. Every device has one interface directory.
\<close>

definition hub :: filesystem where
  "hub = \<lparr>
     directories =
       [(''/h'', Some [''usb1'']),
        (''/h/usb1'', Some [''1-1'', ''1-10'']),
        (''/h/usb1/1-1'', Some [''1-1:1.0'', ''1-1.10'']),
        (''/h/usb1/1-1/1-1:1.0'', Some []),
        (''/h/usb1/1-1/1-1.10'', Some [''1-1.10:1.0'']),
        (''/h/usb1/1-1/1-1.10/1-1.10:1.0'', Some []),
        (''/h/usb1/1-10'', Some [''1-10:1.0'']),
        (''/h/usb1/1-10/1-10:1.0'', Some [])],
     files = []
   \<rparr>"

definition hub_bus :: node where
  "hub_bus = Bus ''1'' (USB ''/h'') ''/h/usb1''"

definition hub_port1 :: node where
  "hub_port1 = Port ''1'' hub_bus ''/h/usb1/1-1''"

text \<open>A port directory that holds, beside its own interface directory, the interface
  directory of another device.\<close>

definition stray :: filesystem where
  "stray = \<lparr>
     directories =
       [(''/d'', Some [''usb1'']),
        (''/d/usb1'', Some [''1-1'']),
        (''/d/usb1/1-1'', Some [''1-1:1.0'', ''2-2:1.0'']),
        (''/d/usb1/1-1/1-1:1.0'', Some []),
        (''/d/usb1/1-1/2-2:1.0'', Some [])],
     files = []
   \<rparr>"

definition stray_port :: node where
  "stray_port = Port ''1'' (Bus ''1'' (USB ''/d'') ''/d/usb1'') ''/d/usb1/1-1''"

section \<open>Derived names and coordinates, for the statements\<close>

text \<open>The name of the directory that \<open>self[key]\<close> looks for under \<open>self.fs_path\<close>.\<close>

fun child_dirname :: "node \<Rightarrow> string \<Rightarrow> string" where
  "child_dirname (USB p) key = ''usb'' @ key"
| "child_dirname (Bus n par p) key = n @ ''-'' @ key"
| "child_dirname (Port n par p) key = format_opt (fs_name p) @ ''.'' @ key"

text \<open>The keys from the root down to a node, and the segments of a name between its
  hyphens and dots.\<close>

fun coordinate :: "node \<Rightarrow> string list" where
  "coordinate (USB p) = []"
| "coordinate (Bus n par p) = coordinate par @ [n]"
| "coordinate (Port n par p) = coordinate par @ [n]"

fun split_at :: "(char \<Rightarrow> bool) \<Rightarrow> string \<Rightarrow> string list" where
  "split_at P [] = [[]]"
| "split_at P (c # cs) =
     (if P c then [] # split_at P cs
      else (case split_at P cs of [] \<Rightarrow> [[c]] | w # ws \<Rightarrow> (c # w) # ws))"

definition spec_segments :: "string \<Rightarrow> string list" where
  "spec_segments s = split_at (\<lambda>c. c = CHR ''-'' \<or> c = CHR ''.'') s"

section \<open>Names with digit runs, for the statements\<close>

text \<open>
  The shapes as the documentation of the module gives them, with numbers of any
  length: a device path is \<open>bus-port.port...\<close>, and the name of an interface is a device
  path followed by \<open>:config.interface\<close>.
\<close>

definition digits1 :: "string \<Rightarrow> bool" where
  "digits1 s = (s \<noteq> [] \<and> list_all isdigit s)"

definition spec_device_path :: "string \<Rightarrow> bool" where
  "spec_device_path s =
     (case split_at (\<lambda>c. c = CHR ''-'') s of
        [bus, ports] \<Rightarrow> digits1 bus \<and> list_all digits1 (split_at (\<lambda>c. c = CHR ''.'') ports)
      | _ \<Rightarrow> False)"

definition spec_interface_name :: "string \<Rightarrow> bool" where
  "spec_interface_name s =
     (case split_at (\<lambda>c. c = CHR '':'') s of
        [dev, tail] \<Rightarrow>
          spec_device_path dev \<and>
          (case split_at (\<lambda>c. c = CHR ''.'') tail of
             [config, number] \<Rightarrow> digits1 config \<and> digits1 number
           | _ \<Rightarrow> False)
      | _ \<Rightarrow> False)"

section \<open>The traversal, for the statements\<close>

text \<open>The length of the longest path that is a directory.\<close>

definition longest_directory :: "filesystem \<Rightarrow> nat" where
  "longest_directory fs = foldr max (map (\<lambda>entry. length (fst entry)) (directories fs)) 0"

text \<open>\<open>iface.tty\<close> returns a name.\<close>

definition has_tty :: "filesystem \<Rightarrow> interface \<Rightarrow> bool" where
  "has_tty fs iface = (case Interface_tty fs iface of Some (Inr (Some t)) \<Rightarrow> True | _ \<Rightarrow> False)"

text \<open>The interfaces of one node that the aggregation keeps.\<close>

definition kept :: "filesystem \<Rightarrow> bool \<Rightarrow> interface list \<Rightarrow> interface list" where
  "kept fs tty found = (if tty then filter (has_tty fs) found else found)"

text \<open>
  \<open>visits fs nodes order\<close>: a depth-first walk from the nodes of the list \<open>nodes\<close>, one
  after the other, comes by the nodes of \<open>order\<close>, in this order: each node first, then
  the walk from its \<open>values()\<close>, then the walk from the nodes after it.
\<close>

inductive visits :: "filesystem \<Rightarrow> node list \<Rightarrow> node list \<Rightarrow> bool" for fs :: filesystem where
  visits_Nil: "visits fs [] []"
| visits_Cons:
    "Container_values fs child = Inr children \<Longrightarrow> visits fs children below \<Longrightarrow>
     visits fs rest after \<Longrightarrow> visits fs (child # rest) (child # below @ after)"

text \<open>A tree without interface directories: bus 1 with an empty port 1.\<close>

definition bare :: filesystem where
  "bare = \<lparr>
     directories =
       [(''/d'', Some [''usb1'']),
        (''/d/usb1'', Some [''1-1'', ''power'']),
        (''/d/usb1/power'', Some []),
        (''/d/usb1/1-1'', Some [])],
     files = []
   \<rparr>"

section \<open>Evaluation of the examples\<close>

lemmas fs_defs = isdir_def listdir_def open_read_def

lemmas py_defs = join_def endswith_char_def sep_def newline_def nul_def isdigit_def
  slice_from_def py_find_def py_rfind_def fs_name_def

lemmas rx_defs = re_match_def IS_BUS_def IS_BUS_PORT_def IS_SUB_PORT_def IS_INTERFACE_def

lemmas node_defs = usb_def bus1_def port1_def port12_def hub_bus_def hub_port1_def stray_port_def

section \<open>What the patterns accept\<close>

lemma concat_map_nonempty: "concat (map f xs) \<noteq> [] \<longleftrightarrow> (\<exists>x\<in>set xs. f x \<noteq> [])"
  by (induction xs) auto

lemma rx_step_group:
  "rx_step (Seq (Chr CHR ''.'') Digit) (i, s) =
     (case s of
        c # d # t \<Rightarrow> if c = CHR ''.'' \<and> isdigit d then [(Suc (Suc i), t)] else []
      | _ \<Rightarrow> [])"
  by (simp split: list.splits)

lemma dotted_Cons:
  "dotted (c # g) \<longleftrightarrow> (\<exists>d g'. g = d # g' \<and> c = CHR ''.'' \<and> isdigit d \<and> dotted g')"
  by (cases g) auto

lemma star_dotted:
  "length s \<le> n \<Longrightarrow>
   (j, t) \<in> set (star_iter n (rx_step (Seq (Chr CHR ''.'') Digit)) (i, s)) \<longleftrightarrow>
   (\<exists>g. dotted g \<and> s = g @ t \<and> j = i + length g)"
proof (induction n arbitrary: i s)
  case 0
  then show ?case by auto
next
  case (Suc n)
  show ?case
  proof (cases "\<exists>d t'. s = CHR ''.'' # d # t' \<and> isdigit d")
    case True
    then obtain d t' where s: "s = CHR ''.'' # d # t'" and d: "isdigit d" by blast
    from Suc.prems s have len: "length t' \<le> n" by simp
    have "(j, t) \<in> set (star_iter (Suc n) (rx_step (Seq (Chr CHR ''.'') Digit)) (i, s)) \<longleftrightarrow>
          (j, t) \<in> set (star_iter n (rx_step (Seq (Chr CHR ''.'') Digit)) (Suc (Suc i), t')) \<or> (j, t) = (i, s)"
      using s d by (auto simp del: rx_step.simps simp add: rx_step_group)
    also have "\<dots> \<longleftrightarrow> (\<exists>g'. dotted g' \<and> t' = g' @ t \<and> j = Suc (Suc i) + length g') \<or> (j, t) = (i, s)"
      using Suc.IH [OF len, of "Suc (Suc i)"] by (simp del: rx_step.simps)
    also have "\<dots> \<longleftrightarrow> (\<exists>g. dotted g \<and> s = g @ t \<and> j = i + length g)"
    proof
      assume "(\<exists>g'. dotted g' \<and> t' = g' @ t \<and> j = Suc (Suc i) + length g') \<or> (j, t) = (i, s)"
      then show "\<exists>g. dotted g \<and> s = g @ t \<and> j = i + length g"
      proof
        assume "\<exists>g'. dotted g' \<and> t' = g' @ t \<and> j = Suc (Suc i) + length g'"
        then obtain g' where "dotted g'" "t' = g' @ t" "j = Suc (Suc i) + length g'" by blast
        then have "dotted (CHR ''.'' # d # g') \<and> s = (CHR ''.'' # d # g') @ t \<and> j = i + length (CHR ''.'' # d # g')"
          using s d by simp
        then show ?thesis by blast
      next
        assume "(j, t) = (i, s)"
        then have "dotted [] \<and> s = [] @ t \<and> j = i + length ([]::string)" by simp
        then show ?thesis by blast
      qed
    next
      assume "\<exists>g. dotted g \<and> s = g @ t \<and> j = i + length g"
      then obtain g where g: "dotted g" "s = g @ t" "j = i + length g" by blast
      show "(\<exists>g'. dotted g' \<and> t' = g' @ t \<and> j = Suc (Suc i) + length g') \<or> (j, t) = (i, s)"
      proof (cases g)
        case Nil
        with g show ?thesis by simp
      next
        case (Cons c g1)
        with g(1) obtain d1 g' where "g1 = d1 # g'" "dotted g'" by (auto simp: dotted_Cons)
        with Cons g s have "dotted g' \<and> t' = g' @ t \<and> j = Suc (Suc i) + length g'" by simp
        then show ?thesis by blast
      qed
    qed
    finally show ?thesis .
  next
    case False
    then have step: "rx_step (Seq (Chr CHR ''.'') Digit) (i, s) = []"
      by (auto simp del: rx_step.simps simp add: rx_step_group split: list.splits)
    have "(j, t) \<in> set (star_iter (Suc n) (rx_step (Seq (Chr CHR ''.'') Digit)) (i, s)) \<longleftrightarrow> (j, t) = (i, s)"
      by (simp del: rx_step.simps add: step)
    also have "\<dots> \<longleftrightarrow> (\<exists>g. dotted g \<and> s = g @ t \<and> j = i + length g)"
    proof
      assume "(j, t) = (i, s)"
      then have "dotted [] \<and> s = [] @ t \<and> j = i + length ([]::string)" by simp
      then show "\<exists>g. dotted g \<and> s = g @ t \<and> j = i + length g" by blast
    next
      assume "\<exists>g. dotted g \<and> s = g @ t \<and> j = i + length g"
      then obtain g where g: "dotted g" "s = g @ t" "j = i + length g" by blast
      show "(j, t) = (i, s)"
      proof (cases g)
        case Nil
        with g show ?thesis by simp
      next
        case (Cons c g1)
        with g(1) obtain d1 g' where "g1 = d1 # g'" "c = CHR ''.''" "isdigit d1" by (auto simp: dotted_Cons)
        with Cons g False show ?thesis by simp
      qed
    qed
    finally show ?thesis .
  qed
qed

lemma rx_step_head:
  "rx_step (Seq Bol (Seq Digit (Seq (Chr CHR ''-'') (Seq Digit r)))) (0, s) =
     (case s of
        b # h # p # rest \<Rightarrow>
          if isdigit b \<and> h = CHR ''-'' \<and> isdigit p then rx_step r (3, rest) else []
      | _ \<Rightarrow> [])"
  by (simp split: list.splits add: numeral_3_eq_3)

lemma rx_step_Eol: "rx_step Eol (j, t) \<noteq> [] \<longleftrightarrow> t = [] \<or> t = [newline]"
  by simp

lemma IS_BUS_PORT_iff: "re_match IS_BUS_PORT s = single_digit_port s"
  unfolding re_match_def IS_BUS_PORT_def seqs.simps rx_step_head
  by (cases s rule: single_digit_port.cases) (auto)

lemma star_then:
  "rx_step (Seq (Star (Seq (Chr CHR ''.'') Digit)) r) (i, s) \<noteq> [] \<longleftrightarrow>
   (\<exists>g t. dotted g \<and> s = g @ t \<and> rx_step r (i + length g, t) \<noteq> [])"
proof -
  have "rx_step (Seq (Star (Seq (Chr CHR ''.'') Digit)) r) (i, s) \<noteq> [] \<longleftrightarrow>
        (\<exists>st \<in> set (star_iter (length s) (rx_step (Seq (Chr CHR ''.'') Digit)) (i, s)). rx_step r st \<noteq> [])"
    by (simp del: star_iter.simps add: concat_map_nonempty)
  also have "\<dots> \<longleftrightarrow> (\<exists>j t. (j, t) \<in> set (star_iter (length s) (rx_step (Seq (Chr CHR ''.'') Digit)) (i, s)) \<and> rx_step r (j, t) \<noteq> [])"
    by auto
  also have "\<dots> \<longleftrightarrow> (\<exists>g t. dotted g \<and> s = g @ t \<and> rx_step r (i + length g, t) \<noteq> [])"
    by (subst star_dotted) auto
  finally show ?thesis .
qed

lemma port_path_iff:
  "port_path s \<longleftrightarrow> (\<exists>b p g. s = b # CHR ''-'' # p # g \<and> isdigit b \<and> isdigit p \<and> dotted g)"
  by (cases s rule: port_path.cases) auto

lemma sub_port_tail:
  "rx_step (Seq (Star (Seq (Chr CHR ''.'') Digit)) Eol) (i, rest) \<noteq> [] \<longleftrightarrow>
   dotted rest \<or> (\<exists>g. rest = g @ [newline] \<and> dotted g)"
  unfolding star_then rx_step_Eol by auto

lemma IS_SUB_PORT_iff:
  "re_match IS_SUB_PORT s \<longleftrightarrow> port_path s \<or> (\<exists>t. s = t @ [newline] \<and> port_path t)"
proof (cases "\<exists>b p rest. s = b # CHR ''-'' # p # rest \<and> isdigit b \<and> isdigit p")
  case True
  then obtain b p rest where s: "s = b # CHR ''-'' # p # rest" and d: "isdigit b" "isdigit p"
    by blast
  have "re_match IS_SUB_PORT s \<longleftrightarrow> dotted rest \<or> (\<exists>g. rest = g @ [newline] \<and> dotted g)"
    unfolding re_match_def IS_SUB_PORT_def seqs.simps rx_step_head
    using s d by (simp del: rx_step.simps add: sub_port_tail)
  moreover have "port_path s \<longleftrightarrow> dotted rest"
    using s d by simp
  moreover have "(\<exists>t. s = t @ [newline] \<and> port_path t) \<longleftrightarrow> (\<exists>g. rest = g @ [newline] \<and> dotted g)"
  proof
    assume "\<exists>t. s = t @ [newline] \<and> port_path t"
    then obtain t where t: "s = t @ [newline]" "port_path t" by blast
    from t(2) obtain b' p' g where "t = b' # CHR ''-'' # p' # g" "dotted g"
      by (auto simp: port_path_iff)
    with t(1) s have "rest = g @ [newline] \<and> dotted g" by simp
    then show "\<exists>g. rest = g @ [newline] \<and> dotted g" by blast
  next
    assume "\<exists>g. rest = g @ [newline] \<and> dotted g"
    then obtain g where "rest = g @ [newline]" "dotted g" by blast
    with s d have "s = (b # CHR ''-'' # p # g) @ [newline] \<and> port_path (b # CHR ''-'' # p # g)"
      by simp
    then show "\<exists>t. s = t @ [newline] \<and> port_path t" by blast
  qed
  ultimately show ?thesis by simp
next
  case False
  then have no1: "\<not> re_match IS_SUB_PORT s"
    unfolding re_match_def IS_SUB_PORT_def seqs.simps rx_step_head
    by (auto split: list.splits)
  from False have no2: "\<not> port_path s"
    by (auto simp: port_path_iff)
  have no3: "\<not> (\<exists>t. s = t @ [newline] \<and> port_path t)"
  proof
    assume "\<exists>t. s = t @ [newline] \<and> port_path t"
    then obtain t where t: "s = t @ [newline]" "port_path t" by blast
    from t(2) obtain b' p' g where "t = b' # CHR ''-'' # p' # g" "isdigit b'" "isdigit p'"
      by (auto simp: port_path_iff)
    with t(1) have "s = b' # CHR ''-'' # p' # (g @ [newline]) \<and> isdigit b' \<and> isdigit p'" by simp
    with False show False by blast
  qed
  from no1 no2 no3 show ?thesis by simp
qed

lemma interface_tail:
  "rx_step (Seq (Chr CHR '':'') (Seq Digit (Seq AnyChar (Seq Digit Eol)))) (j, t) \<noteq> [] \<longleftrightarrow>
   (\<exists>c x i nl. t = CHR '':'' # c # x # i # nl \<and> isdigit c \<and> x \<noteq> newline \<and> isdigit i \<and>
      (nl = [] \<or> nl = [newline]))"
  by (auto split: list.splits if_splits)

lemma IS_INTERFACE_iff:
  "re_match IS_INTERFACE s \<longleftrightarrow>
   (\<exists>dev c x i nl. s = dev @ CHR '':'' # c # x # i # nl \<and> port_path dev \<and> isdigit c \<and>
      x \<noteq> newline \<and> isdigit i \<and> (nl = [] \<or> nl = [newline]))"
proof (cases "\<exists>b p rest. s = b # CHR ''-'' # p # rest \<and> isdigit b \<and> isdigit p")
  case True
  then obtain b p rest where s: "s = b # CHR ''-'' # p # rest" and d: "isdigit b" "isdigit p"
    by blast
  have "re_match IS_INTERFACE s \<longleftrightarrow>
        (\<exists>g t. dotted g \<and> rest = g @ t \<and>
           (\<exists>c x i nl. t = CHR '':'' # c # x # i # nl \<and> isdigit c \<and> x \<noteq> newline \<and> isdigit i \<and>
             (nl = [] \<or> nl = [newline])))"
    unfolding re_match_def IS_INTERFACE_def seqs.simps rx_step_head
    using s d by (simp del: rx_step.simps add: star_then interface_tail)
  also have "\<dots> \<longleftrightarrow>
    (\<exists>dev c x i nl. s = dev @ CHR '':'' # c # x # i # nl \<and> port_path dev \<and> isdigit c \<and>
      x \<noteq> newline \<and> isdigit i \<and> (nl = [] \<or> nl = [newline]))"
  proof
    assume "\<exists>g t. dotted g \<and> rest = g @ t \<and>
           (\<exists>c x i nl. t = CHR '':'' # c # x # i # nl \<and> isdigit c \<and> x \<noteq> newline \<and> isdigit i \<and>
             (nl = [] \<or> nl = [newline]))"
    then obtain g c x i nl where g: "dotted g" "rest = g @ CHR '':'' # c # x # i # nl"
      "isdigit c" "x \<noteq> newline" "isdigit i" "nl = [] \<or> nl = [newline]" by blast
    with s d have "s = (b # CHR ''-'' # p # g) @ CHR '':'' # c # x # i # nl \<and>
      port_path (b # CHR ''-'' # p # g) \<and> isdigit c \<and> x \<noteq> newline \<and> isdigit i \<and>
      (nl = [] \<or> nl = [newline])" by simp
    then show "\<exists>dev c x i nl. s = dev @ CHR '':'' # c # x # i # nl \<and> port_path dev \<and> isdigit c \<and>
      x \<noteq> newline \<and> isdigit i \<and> (nl = [] \<or> nl = [newline])" by blast
  next
    assume "\<exists>dev c x i nl. s = dev @ CHR '':'' # c # x # i # nl \<and> port_path dev \<and> isdigit c \<and>
      x \<noteq> newline \<and> isdigit i \<and> (nl = [] \<or> nl = [newline])"
    then obtain dev c x i nl where h: "s = dev @ CHR '':'' # c # x # i # nl" "port_path dev"
      "isdigit c" "x \<noteq> newline" "isdigit i" "nl = [] \<or> nl = [newline]" by blast
    from h(2) obtain b' p' g where dev: "dev = b' # CHR ''-'' # p' # g" "dotted g"
      by (auto simp: port_path_iff)
    with h(1) s have "rest = g @ CHR '':'' # c # x # i # nl" by simp
    with dev h show "\<exists>g t. dotted g \<and> rest = g @ t \<and>
           (\<exists>c x i nl. t = CHR '':'' # c # x # i # nl \<and> isdigit c \<and> x \<noteq> newline \<and> isdigit i \<and>
             (nl = [] \<or> nl = [newline]))" by blast
  qed
  finally show ?thesis .
next
  case False
  then have no1: "\<not> re_match IS_INTERFACE s"
    unfolding re_match_def IS_INTERFACE_def seqs.simps rx_step_head
    by (auto split: list.splits)
  have no2: "\<not> (\<exists>dev c x i nl. s = dev @ CHR '':'' # c # x # i # nl \<and> port_path dev \<and> isdigit c \<and>
      x \<noteq> newline \<and> isdigit i \<and> (nl = [] \<or> nl = [newline]))"
  proof
    assume "\<exists>dev c x i nl. s = dev @ CHR '':'' # c # x # i # nl \<and> port_path dev \<and> isdigit c \<and>
      x \<noteq> newline \<and> isdigit i \<and> (nl = [] \<or> nl = [newline])"
    then obtain dev c x i nl where h: "s = dev @ CHR '':'' # c # x # i # nl" "port_path dev" by blast
    from h(2) obtain b' p' g where "dev = b' # CHR ''-'' # p' # g" "isdigit b'" "isdigit p'"
      by (auto simp: port_path_iff)
    with h(1) have "s = b' # CHR ''-'' # p' # (g @ CHR '':'' # c # x # i # nl) \<and> isdigit b' \<and> isdigit p'"
      by simp
    with False show False by blast
  qed
  from no1 no2 show ?thesis by simp
qed

section \<open>First-level ports\<close>

lemma isdigit_not_hyphen: "isdigit b \<Longrightarrow> b \<noteq> CHR ''-''"
  by (auto simp: isdigit_def)

lemma isdigit_not_dot: "isdigit b \<Longrightarrow> b \<noteq> CHR ''.''"
  by (auto simp: isdigit_def)

lemma bus_port_key:
  "single_digit_port child \<Longrightarrow> slice_from child (py_find child CHR ''-'' + 1) = drop 2 child"
  by (cases child rule: single_digit_port.cases)
     (auto simp: slice_from_def py_find_def dest: isdigit_not_hyphen)

lemma Bus_iter_keys:
  assumes "listdir fs (fs_path self) = Inr children"
  shows "Bus_iter fs self = Inr (map (drop 2) (filter single_digit_port children))"
proof -
  have "map (\<lambda>child. slice_from child (py_find child CHR ''-'' + 1)) (filter single_digit_port children)
        = map (drop 2) (filter single_digit_port children)"
    by (rule map_cong) (auto simp: bus_port_key)
  moreover have "filter (re_match IS_BUS_PORT) children = filter single_digit_port children"
    by (rule filter_cong) (auto simp: IS_BUS_PORT_iff)
  ultimately show ?thesis
    using assms by (simp add: Bus_iter_def)
qed

text \<open>
  The keys that \<open>Bus.__iter__\<close> yields are the entries that \<open>IS_BUS_PORT\<close> accepts, each
  cut after its hyphen; an entry of two single digits around a hyphen yields its
  second digit.
\<close>

lemma Bus_iter_single_digit_ports:
  assumes "listdir fs (fs_path self) = Inr children"
  shows "Bus_iter fs self = Inr (map (drop 2) (filter single_digit_port children)) \<and>
         (\<forall>b p. isdigit b \<and> isdigit p \<and> [b, CHR ''-'', p] \<in> set children \<longrightarrow>
            (\<exists>keys. Bus_iter fs self = Inr keys \<and> [p] \<in> set keys)) \<and>
         (\<forall>child. re_match IS_BUS_PORT child \<longleftrightarrow> single_digit_port child)"
proof (intro conjI allI impI)
  show keys: "Bus_iter fs self = Inr (map (drop 2) (filter single_digit_port children))"
    by (rule Bus_iter_keys [OF assms])
  show "re_match IS_BUS_PORT child \<longleftrightarrow> single_digit_port child" for child
    by (rule IS_BUS_PORT_iff)
  show "\<exists>keys. Bus_iter fs self = Inr keys \<and> [p] \<in> set keys"
    if h: "isdigit b \<and> isdigit p \<and> [b, CHR ''-'', p] \<in> set children" for b p
  proof -
    from h have "[b, CHR ''-'', p] \<in> set (filter single_digit_port children)" by simp
    then have "drop 2 [b, CHR ''-'', p] \<in> set (map (drop 2) (filter single_digit_port children))"
      unfolding set_map by (rule imageI)
    then have "[p] \<in> set (map (drop 2) (filter single_digit_port children))" by simp
    with keys show ?thesis by blast
  qed
qed

lemma Bus_iter_single_digit_ports_fixture:
  "listdir fixture (fs_path bus1) = Inr [''1-1'', ''1-0:1.0'', ''power''] \<and>
   Bus_iter fixture bus1 = Inr [''1'']"
  using Bus_iter_single_digit_ports [of fixture bus1 "[''1-1'', ''1-0:1.0'', ''power'']"]
  by (simp add: fixture_def node_defs fs_defs isdigit_def)

text \<open>
  C1. Every entry \<open><bus>-<port>\<close> of a bus directory, the two numbers digit runs of any
  length, is to be classified as a first-level port and to yield its port number. The
  program misses the ports from 10 on: on a bus that lists \<open>1-1\<close> and \<open>1-10\<close>, both
  directories, \<open>Bus.__iter__\<close> yields the key \<open>1\<close> only, though \<open>self['10']\<close> returns the
  port on \<open>1-10\<close>. \<open>IS_BUS_PORT\<close> has a single \<open>\d\<close> on each side of the hyphen, while
  the key is cut as the whole rest of the name after the hyphen.
\<close>

theorem Bus_iter_misses_port_10:
  "listdir hub (fs_path hub_bus) = Inr [''1-1'', ''1-10''] \<and>
   isdir hub (join (fs_path hub_bus) ''1-1'') \<and>
   isdir hub (join (fs_path hub_bus) ''1-10'') \<and>
   Bus_getitem hub hub_bus ''10'' = Inr (Port ''10'' hub_bus ''/h/usb1/1-10'') \<and>
   Bus_iter hub hub_bus = Inr [''1'']"
  by (simp add: Bus_iter_def Bus_getitem_def Port_init_def hub_def node_defs fs_defs py_defs
      rx_defs)

section \<open>Nested ports\<close>

lemma dotted_append: "dotted g \<Longrightarrow> isdigit d \<Longrightarrow> dotted (g @ [CHR ''.'', d])"
  by (induction g rule: dotted.induct) auto

lemma port_path_append: "port_path s \<Longrightarrow> isdigit d \<Longrightarrow> port_path (s @ [CHR ''.'', d])"
  by (auto simp: port_path_iff dotted_append)

lemma isdigit_not_sep: "isdigit c \<Longrightarrow> sep \<noteq> c"
  by (auto simp: isdigit_def sep_def)

lemma sep_not_delimiter: "sep \<noteq> CHR ''.''" "sep \<noteq> CHR ''-''"
  by (simp_all add: sep_def)

lemma dotted_no_sep: "dotted g \<Longrightarrow> sep \<notin> set g"
  by (induction g rule: dotted.induct) (auto simp: sep_not_delimiter dest: isdigit_not_sep)

lemma port_path_no_sep:
  assumes "port_path s"
  shows "sep \<notin> set s"
proof -
  from assms obtain b p g where s: "s = b # CHR ''-'' # p # g" and d: "isdigit b" "isdigit p"
    and g: "dotted g" by (auto simp: port_path_iff)
  from d g show ?thesis
    unfolding s by (simp add: sep_not_delimiter isdigit_not_sep dotted_no_sep)
qed

lemma find_from_notin: "c \<notin> set s \<Longrightarrow> find_from i c s = -1"
  by (induction s arbitrary: i) auto

lemma find_from_in: "c \<in> set s \<Longrightarrow> 0 \<le> find_from i c s"
  by (induction s arbitrary: i) auto

lemma rfind_from_notin: "c \<notin> set s \<Longrightarrow> rfind_from i best c s = best"
  by (induction s arbitrary: i best) auto

lemma rfind_from_append:
  "rfind_from i best c (xs @ ys) = rfind_from (i + length xs) (rfind_from i best c xs) c ys"
  by (induction xs arbitrary: i best) auto

lemma py_rfind_last: "c \<notin> set ys \<Longrightarrow> py_rfind (xs @ c # ys) c = int (length xs)"
  by (simp add: py_rfind_def rfind_from_append rfind_from_notin)

lemma slice_after_last:
  "c \<notin> set ys \<Longrightarrow> slice_from (xs @ c # ys) (py_rfind (xs @ c # ys) c + 1) = ys"
proof -
  assume "c \<notin> set ys"
  then have "py_rfind (xs @ c # ys) c + 1 = int (Suc (length xs))"
    by (simp add: py_rfind_last)
  then show ?thesis
    by (simp add: slice_from_def del: of_nat_Suc)
qed

lemma fs_name_append:
  "sep \<notin> set n \<Longrightarrow> fs_name (p @ sep # n) = Some n"
  using find_from_in [of sep "p @ sep # n" 0]
  by (simp add: fs_name_def py_find_def slice_after_last)

lemma fs_name_Some_sep: "fs_name p = Some n \<Longrightarrow> sep \<in> set p"
proof (rule ccontr)
  assume n: "fs_name p = Some n" and "sep \<notin> set p"
  then have "find_from 0 sep p = -1" by (simp add: find_from_notin)
  then have "fs_name p = None" by (simp add: fs_name_def py_find_def)
  with n show False by simp
qed

lemma fs_name_Some_last: "fs_name p = Some n \<Longrightarrow> n \<noteq> [] \<Longrightarrow> \<not> endswith_char p sep"
proof
  assume n: "fs_name p = Some n" "n \<noteq> []" and e: "endswith_char p sep"
  from e obtain q where "p = q @ sep # []"
    by (cases p rule: rev_cases) (auto simp: endswith_char_def)
  then have "fs_name p = Some []" by (simp add: fs_name_append)
  with n show False by simp
qed

lemma join_plain:
  "p \<noteq> [] \<Longrightarrow> \<not> endswith_char p sep \<Longrightarrow> sep \<notin> set n \<Longrightarrow> join p n = p @ sep # n"
  by (cases n) (auto simp: join_def)

lemma split_at_nonempty: "split_at P s \<noteq> []"
  by (induction s) (auto split: list.splits)

lemma split_at_snoc:
  "P c \<Longrightarrow> \<not> P d \<Longrightarrow> split_at P (xs @ [c, d]) = split_at P xs @ [[d]]"
  by (induction xs) (auto split: list.splits simp: split_at_nonempty)

lemma spec_segments_snoc:
  "isdigit d \<Longrightarrow> spec_segments (s @ [CHR ''.'', d]) = spec_segments s @ [[d]]"
  unfolding spec_segments_def
  by (rule split_at_snoc) (auto simp: isdigit_def)

lemma Port_iter_keys:
  assumes "listdir fs (fs_path self) = Inr children" and "child \<in> set children"
    and "re_match IS_SUB_PORT child"
  shows "\<exists>keys. Port_iter fs self = Inr keys \<and>
           slice_from child (py_rfind child CHR ''.'' + 1) \<in> set keys"
  using assms by (simp add: Port_iter_def)

text \<open>
  The round trip on names with single digits. Let \<open>self\<close> be a node whose directory is
  named \<open>pname\<close>, a port path, and let \<open>N\<close> be \<open>pname\<close>, a dot and a digit \<open>d\<close>. Then
  \<open>Port.__iter__\<close> classifies the entry \<open>N\<close> and yields the key \<open>d\<close>, the rightmost of the
  segments of \<open>N\<close>; the name that \<open>Port.__getitem__\<close> generates from \<open>self\<close> and that key
  is \<open>N\<close> again; and the child it returns is named \<open>N\<close> in the file system.
\<close>

lemma Port_round_trip_single_digit:
  fixes pname :: string and d :: char
  defines "N \<equiv> pname @ [CHR ''.'', d]"
  assumes pname: "fs_name (fs_path self) = Some pname" "port_path pname" and d: "isdigit d"
    and ls: "listdir fs (fs_path self) = Inr children" and entry: "N \<in> set children"
    and dir: "isdir fs (join (fs_path self) N)"
  shows "re_match IS_SUB_PORT N \<and>
         slice_from N (py_rfind N CHR ''.'' + 1) = [d] \<and>
         spec_segments N = spec_segments pname @ [[d]] \<and>
         (\<exists>keys. Port_iter fs self = Inr keys \<and> [d] \<in> set keys) \<and>
         format_opt (fs_name (fs_path self)) @ ''.'' @ [d] = N \<and>
         Port_getitem fs self [d] = Inr (Port [d] self (join (fs_path self) N)) \<and>
         fs_name (join (fs_path self) N) = Some N \<and> port_path N \<and>
         (coordinate self = spec_segments pname \<longrightarrow>
            coordinate (Port [d] self (join (fs_path self) N)) = spec_segments N)"
proof -
  have pp: "port_path N"
    unfolding N_def using pname(2) d by (rule port_path_append)
  then have m: "re_match IS_SUB_PORT N"
    by (simp add: IS_SUB_PORT_iff)
  have "CHR ''.'' \<notin> set [d]"
    using d by (auto simp: isdigit_def)
  then have key: "slice_from N (py_rfind N CHR ''.'' + 1) = [d]"
    unfolding N_def by (rule slice_after_last)
  have seg: "spec_segments N = spec_segments pname @ [[d]]"
    unfolding N_def using d by (rule spec_segments_snoc)
  from Port_iter_keys [OF ls entry m] key
  have it: "\<exists>keys. Port_iter fs self = Inr keys \<and> [d] \<in> set keys" by simp
  have gen: "format_opt (fs_name (fs_path self)) @ ''.'' @ [d] = N"
    using pname(1) by (simp add: N_def)
  have get: "Port_getitem fs self [d] = Inr (Port [d] self (join (fs_path self) N))"
    using dir gen by (simp add: Port_getitem_def Port_init_def)
  have ne: "pname \<noteq> []"
    using pname(2) by auto
  have "fs_path self \<noteq> []"
    using fs_name_Some_sep [OF pname(1)] by auto
  moreover have "\<not> endswith_char (fs_path self) sep"
    using pname(1) ne by (rule fs_name_Some_last)
  moreover have nosep: "sep \<notin> set N"
    using pp by (rule port_path_no_sep)
  ultimately have "join (fs_path self) N = fs_path self @ sep # N"
    by (rule join_plain)
  then have fsn: "fs_name (join (fs_path self) N) = Some N"
    using nosep by (simp add: fs_name_append)
  have co: "coordinate self = spec_segments pname \<longrightarrow>
            coordinate (Port [d] self (join (fs_path self) N)) = spec_segments N"
    using seg by simp
  from m key seg it gen get fsn pp co show ?thesis by blast
qed

lemma Port_round_trip_single_digit_fixture:
  "Port_iter fixture port1 = Inr [''2''] \<and>
   Port_getitem fixture port1 ''2'' = Inr port12 \<and>
   spec_segments ''1-1.2'' = [''1'', ''1'', ''2''] \<and>
   coordinate port12 = [''1'', ''1'', ''2'']"
  using Port_round_trip_single_digit [of port1 "''1-1''" "CHR ''2''" fixture
      "[''1-1:1.0'', ''idVendor'', ''1-1.2'', ''product'', ''driver'']"]
  by (simp add: fixture_def node_defs fs_defs py_defs rx_defs spec_segments_def Port_iter_def)

text \<open>
  C2. Every nested-port name, its segments digit runs of any length, is to be
  classified by its parent port with its rightmost segment for the key, and the name
  generated from the parent and that key is to be the name again. The program misses
  the segments from 10 on: port \<open>1-1\<close> lists the directory \<open>1-1.10\<close>, and \<open>self['10']\<close>
  generates that name and returns the port on it, but \<open>Port.__iter__\<close> yields no key
  for it. \<open>IS_SUB_PORT\<close> has a single \<open>\d\<close> for each number, while the key is cut as
  the whole rest of the name after its last dot.
\<close>

theorem Port_iter_misses_port_10:
  "fs_name (fs_path hub_port1) = Some ''1-1'' \<and>
   listdir hub (fs_path hub_port1) = Inr [''1-1:1.0'', ''1-1.10''] \<and>
   isdir hub (join (fs_path hub_port1) ''1-1.10'') \<and>
   format_opt (fs_name (fs_path hub_port1)) @ ''.'' @ ''10'' = ''1-1.10'' \<and>
   Port_getitem hub hub_port1 ''10'' = Inr (Port ''10'' hub_port1 ''/h/usb1/1-1/1-1.10'') \<and>
   spec_segments ''1-1.10'' = [''1'', ''1'', ''10''] \<and>
   Port_iter hub hub_port1 = Inr []"
  by (simp add: Port_iter_def Port_getitem_def Port_init_def hub_def node_defs fs_defs py_defs
      rx_defs spec_segments_def)

section \<open>Interfaces\<close>

lemma interfaces_loop_all_dirs:
  assumes "\<forall>child\<in>set children. re_match IS_INTERFACE child \<longrightarrow> isdir fs (join path child)"
  shows "interfaces_loop fs path children ifaces =
           Inr (ifaces @ map (\<lambda>child. Interface (join path child))
                            (filter (re_match IS_INTERFACE) children))"
  using assms by (induction children arbitrary: ifaces) (auto simp: Interface_init_def)

lemma interfaces_loop_from:
  "interfaces_loop fs path children ifaces = Inr found \<Longrightarrow>
   found = ifaces @ map (\<lambda>child. Interface (join path child))
                        (filter (re_match IS_INTERFACE) children) \<and>
   (\<forall>child\<in>set children. re_match IS_INTERFACE child \<longrightarrow> isdir fs (join path child))"
proof (induction children arbitrary: ifaces)
  case Nil
  then show ?case by simp
next
  case (Cons a children)
  show ?case
  proof (cases "re_match IS_INTERFACE a")
    case False
    with Cons.prems have "interfaces_loop fs path children ifaces = Inr found" by simp
    from Cons.IH [OF this] False show ?thesis by simp
  next
    case True
    with Cons.prems have d: "isdir fs (join path a)"
      by (auto simp: Interface_init_def split: if_splits)
    with True Cons.prems
    have "interfaces_loop fs path children (ifaces @ [Interface (join path a)]) = Inr found"
      by (simp add: Interface_init_def)
    from Cons.IH [OF this] True d show ?thesis by simp
  qed
qed

text \<open>Names of single digits have the shapes with digit runs.\<close>

lemma isdigit_not_colon: "isdigit b \<Longrightarrow> b \<noteq> CHR '':''"
  by (auto simp: isdigit_def)

lemma split_at_none: "\<forall>x\<in>set xs. \<not> P x \<Longrightarrow> split_at P xs = [xs]"
  by (induction xs) auto

lemma split_at_first:
  "\<forall>x\<in>set xs. \<not> P x \<Longrightarrow> P c \<Longrightarrow> split_at P (xs @ c # ys) = xs # split_at P ys"
  by (induction xs) auto

lemma dotted_chars: "dotted g \<Longrightarrow> x \<in> set g \<Longrightarrow> x = CHR ''.'' \<or> isdigit x"
  by (induction g rule: dotted.induct) auto

lemma dotted_segments:
  "dotted g \<Longrightarrow> isdigit p \<Longrightarrow> list_all digits1 (split_at (\<lambda>c. c = CHR ''.'') (p # g))"
proof (induction g arbitrary: p rule: dotted.induct)
  case 1
  then show ?case by (simp add: digits1_def isdigit_not_dot)
next
  case (2 c)
  then show ?case by simp
next
  case (3 c d rest)
  then have d: "isdigit d" and rest: "dotted rest" and c: "c = CHR ''.''" by simp_all
  from "3.IH" [OF rest d] "3.prems"(2) c show ?case
    by (simp add: digits1_def isdigit_not_dot)
qed

lemma port_path_spec:
  assumes "port_path dev"
  shows "spec_device_path dev"
proof -
  from assms obtain b p g where dev: "dev = b # CHR ''-'' # p # g" and d: "isdigit b" "isdigit p"
    and g: "dotted g" by (auto simp: port_path_iff)
  have "\<forall>x\<in>set (p # g). \<not> x = CHR ''-''"
    using d(2) g by (auto dest: dotted_chars isdigit_not_hyphen)
  then have "split_at (\<lambda>c. c = CHR ''-'') (p # g) = [p # g]"
    by (rule split_at_none)
  moreover have "split_at (\<lambda>c. c = CHR ''-'') ([b] @ CHR ''-'' # p # g) =
      [b] # split_at (\<lambda>c. c = CHR ''-'') (p # g)"
    using d(1) by (intro split_at_first) (auto dest: isdigit_not_hyphen)
  ultimately have "split_at (\<lambda>c. c = CHR ''-'') dev = [[b], p # g]"
    by (simp add: dev)
  with d(1) dotted_segments [OF g d(2)] show ?thesis
    by (simp add: spec_device_path_def digits1_def)
qed

lemma port_path_no_colon:
  assumes "port_path dev"
  shows "\<forall>x\<in>set dev. \<not> x = CHR '':''"
proof -
  from assms obtain b p g where dev: "dev = b # CHR ''-'' # p # g" and d: "isdigit b" "isdigit p"
    and g: "dotted g" by (auto simp: port_path_iff)
  from d g show ?thesis
    unfolding dev by (auto dest: dotted_chars isdigit_not_colon)
qed

lemma spec_interface_single:
  assumes "port_path dev" and "isdigit c" and "isdigit i"
  shows "spec_interface_name (dev @ [CHR '':'', c, CHR ''.'', i])"
proof -
  have "split_at (\<lambda>c. c = CHR '':'') (dev @ CHR '':'' # [c, CHR ''.'', i]) =
      dev # split_at (\<lambda>c. c = CHR '':'') [c, CHR ''.'', i]"
    using port_path_no_colon [OF assms(1)] by (intro split_at_first) simp_all
  moreover have "split_at (\<lambda>c. c = CHR '':'') [c, CHR ''.'', i] = [[c, CHR ''.'', i]]"
    using assms(2,3) by (intro split_at_none) (auto dest: isdigit_not_colon)
  moreover have "split_at (\<lambda>c. c = CHR ''.'') [c, CHR ''.'', i] = [[c], [i]]"
    using assms(2,3) by (simp add: isdigit_not_dot)
  ultimately show ?thesis
    using assms port_path_spec [OF assms(1)]
    by (simp add: spec_interface_name_def digits1_def)
qed

lemma IS_INTERFACE_dot_name:
  assumes "re_match IS_INTERFACE (body @ [CHR ''.'', last_char])"
  shows "\<exists>dev c. body = dev @ [CHR '':'', c] \<and> port_path dev \<and> isdigit c \<and> isdigit last_char"
proof -
  from assms obtain dev c x i nl where
    n: "body @ [CHR ''.'', last_char] = dev @ CHR '':'' # c # x # i # nl"
    and h: "port_path dev" "isdigit c" "isdigit i" "nl = [] \<or> nl = [newline]"
    unfolding IS_INTERFACE_iff by blast
  from h(4) show ?thesis
  proof
    assume "nl = []"
    with n have "body @ [CHR ''.'', last_char] = (dev @ [CHR '':'', c]) @ [x, i]" by simp
    then have "body = dev @ [CHR '':'', c] \<and> last_char = i" by simp
    with h show ?thesis by blast
  next
    assume "nl = [newline]"
    with n have "body @ [CHR ''.'', last_char] = (dev @ [CHR '':'', c, x]) @ [i, newline]" by simp
    then have "i = CHR ''.''" by simp
    with h(3) show ?thesis by (simp add: isdigit_def)
  qed
qed

text \<open>
  C3. The claim is that an entry is classified as an interface exactly when it is the
  full path string of the parent, a colon, a digit run, a literal dot and a digit run.
  \<open>InterfaceProvider.interfaces\<close> matches every entry against \<open>IS_INTERFACE\<close> and
  compares nothing with the parent. Without the comparison: a name made of a device
  path, a colon, a number, a dot and a number, here with single digits for the
  numbers, is classified under every parent; a classified name that ends in a dot and
  one more character is a device path, a colon, a number, that dot and a number; and
  when the classified entries of the listing are directories, \<open>interfaces\<close> returns one
  \<open>Interface\<close> for each of them, in the order of the listing, on the entry's path.
  Numbers of more than one digit, and names with another character than the dot
  before the last one, are left aside here.
\<close>

theorem interfaces_classification:
  "(port_path dev \<and> isdigit c \<and> isdigit i \<longrightarrow>
      spec_interface_name (dev @ [CHR '':'', c, CHR ''.'', i]) \<and>
      re_match IS_INTERFACE (dev @ [CHR '':'', c, CHR ''.'', i])) \<and>
   (re_match IS_INTERFACE (body @ [CHR ''.'', last_char]) \<longrightarrow>
      spec_interface_name (body @ [CHR ''.'', last_char])) \<and>
   (listdir fs (fs_path self) = Inr children \<and>
    (\<forall>child\<in>set children. re_match IS_INTERFACE child \<longrightarrow> isdir fs (join (fs_path self) child)) \<longrightarrow>
      interfaces fs self =
        Inr (map (\<lambda>child. Interface (join (fs_path self) child))
                 (filter (re_match IS_INTERFACE) children)))"
proof (intro conjI impI)
  assume h: "port_path dev \<and> isdigit c \<and> isdigit i"
  then show "spec_interface_name (dev @ [CHR '':'', c, CHR ''.'', i])"
    by (simp add: spec_interface_single)
  have "CHR ''.'' \<noteq> newline" by (simp add: newline_def)
  with h have "dev @ [CHR '':'', c, CHR ''.'', i] = dev @ CHR '':'' # c # CHR ''.'' # i # [] \<and>
      port_path dev \<and> isdigit c \<and> CHR ''.'' \<noteq> newline \<and> isdigit i \<and>
      ([] = ([]::string) \<or> [] = [newline])" by simp
  then show "re_match IS_INTERFACE (dev @ [CHR '':'', c, CHR ''.'', i])"
    unfolding IS_INTERFACE_iff by blast
next
  assume "re_match IS_INTERFACE (body @ [CHR ''.'', last_char])"
  from IS_INTERFACE_dot_name [OF this] obtain dev' c' where
    "body = dev' @ [CHR '':'', c']" "port_path dev'" "isdigit c'" "isdigit last_char" by blast
  then show "spec_interface_name (body @ [CHR ''.'', last_char])"
    using spec_interface_single [of dev' c' last_char] by simp
next
  assume "listdir fs (fs_path self) = Inr children \<and>
    (\<forall>child\<in>set children. re_match IS_INTERFACE child \<longrightarrow> isdir fs (join (fs_path self) child))"
  then show "interfaces fs self =
        Inr (map (\<lambda>child. Interface (join (fs_path self) child))
                 (filter (re_match IS_INTERFACE) children))"
    by (simp add: interfaces_def interfaces_loop_all_dirs)
qed

text \<open>On the example tree: port \<open>1-1\<close> and its entry \<open>1-1:1.0\<close>.\<close>

theorem interfaces_classification_witness:
  "port_path ''1-1'' \<and> isdigit CHR ''1'' \<and> isdigit CHR ''0'' \<and>
   spec_interface_name ''1-1:1.0'' \<and>
   re_match IS_INTERFACE ''1-1:1.0'' \<and>
   listdir fixture (fs_path port1) =
     Inr [''1-1:1.0'', ''idVendor'', ''1-1.2'', ''product'', ''driver''] \<and>
   isdir fixture (join (fs_path port1) ''1-1:1.0'') \<and>
   interfaces fixture port1 = Inr [Interface ''/sys/bus/usb/devices/usb1/1-1/1-1:1.0'']"
  using interfaces_classification [of "''1-1''" "CHR ''1''" "CHR ''0''" "''1-1:1''" "CHR ''0''"
      fixture port1 "[''1-1:1.0'', ''idVendor'', ''1-1.2'', ''product'', ''driver'']"]
  by (simp add: fixture_def node_defs fs_defs py_defs rx_defs)

text \<open>A port \<open>1-1\<close> whose directory holds, beside \<open>1-1:1.0\<close>, the interface directory
  \<open>2-2:1.0\<close> of another device returns an \<open>Interface\<close> for each.\<close>

theorem interfaces_other_device_counterexample:
  "fs_name (fs_path stray_port) = Some ''1-1'' \<and>
   listdir stray (fs_path stray_port) = Inr [''1-1:1.0'', ''2-2:1.0''] \<and>
   interfaces stray stray_port =
     Inr [Interface ''/d/usb1/1-1/1-1:1.0'', Interface ''/d/usb1/1-1/2-2:1.0'']"
  by (simp add: interfaces_def Interface_init_def stray_def node_defs fs_defs py_defs rx_defs)

text \<open>The dot between the configuration and the interface number is not escaped in
  the pattern, unlike the dots of the port path: any character but a line feed may
  stand there.\<close>

lemma IS_INTERFACE_unescaped_dot:
  "re_match IS_INTERFACE ''1-1:1x0'' \<and> re_match IS_INTERFACE ''1-1:1.0''"
  by (simp add: py_defs rx_defs)

section \<open>Fetching a child\<close>

lemma node_getitem_eq:
  "node_getitem fs self key =
     (if isdir fs (join (fs_path self) (child_dirname self key)) then
        Inr (case self of USB p \<Rightarrow> Bus key self (join p (child_dirname self key))
             | _ \<Rightarrow> Port key self (join (fs_path self) (child_dirname self key)))
      else Inl (KeyError key))"
  by (cases self)
     (simp_all add: USB_getitem_def Bus_getitem_def Port_getitem_def Bus_init_def Port_init_def)

text \<open>
  C4. The claim is that \<open>self[key]\<close> answers a well-formed key whose directory is
  missing with a not-found outcome and a malformed key with another, invalid-address
  outcome. \<open>__getitem__\<close> never inspects the key: it formats it into the name of the
  child directory and tests that directory. What holds is: for every key, well-formed
  or not, \<open>self[key]\<close> raises \<open>KeyError(key)\<close> when the derived directory does not
  exist, returns the child on that directory, named by the key, when it does, and
  raises nothing but \<open>KeyError(key)\<close>.
\<close>

theorem getitem_outcomes:
  "(\<not> isdir fs (join (fs_path self) (child_dirname self key)) \<longrightarrow>
      node_getitem fs self key = Inl (KeyError key)) \<and>
   (isdir fs (join (fs_path self) (child_dirname self key)) \<longrightarrow>
      (\<exists>child. node_getitem fs self key = Inr child \<and>
         fs_path child = join (fs_path self) (child_dirname self key) \<and>
         name child = Some key \<and> parent child = Some self)) \<and>
   (\<forall>e. node_getitem fs self key = Inl e \<longrightarrow> e = KeyError key)"
  by (cases self) (auto simp: node_getitem_eq)

text \<open>On the example tree: bus 1 has no port 5 and has port 1.\<close>

theorem getitem_outcomes_witness:
  "\<not> isdir fixture (join (fs_path bus1) (child_dirname bus1 ''5'')) \<and>
   node_getitem fixture bus1 ''5'' = Inl (KeyError ''5'') \<and>
   isdir fixture (join (fs_path bus1) (child_dirname bus1 ''1'')) \<and>
   node_getitem fixture bus1 ''1'' = Inr port1"
  using getitem_outcomes [of fixture bus1 "''5''"] getitem_outcomes [of fixture bus1 "''1''"]
  by (simp add: fixture_def node_defs fs_defs py_defs Bus_getitem_def Port_init_def)

text \<open>A negative number and a letter as keys raise the same \<open>KeyError\<close> as the
  missing port 5.\<close>

theorem getitem_malformed_key_counterexample:
  "node_getitem fixture bus1 ''-1'' = Inl (KeyError ''-1'') \<and>
   node_getitem fixture bus1 ''x'' = Inl (KeyError ''x'') \<and>
   node_getitem fixture bus1 ''5'' = Inl (KeyError ''5'') \<and>
   node_getitem fixture port1 ''-1'' = Inl (KeyError ''-1'') \<and>
   node_getitem fixture usb ''-1'' = Inl (KeyError ''-1'')"
  by (simp add: fixture_def node_defs fs_defs py_defs Bus_getitem_def Port_getitem_def
      USB_getitem_def)

section \<open>Reading attributes\<close>

text \<open>
  C6. The claim is that a read of an attribute file holding \<open>0403\<close>, a line feed and a
  NUL returns \<open>0403\<close>. \<open>FileAttributes.__getattribute__\<close> strips line feeds and then
  whitespace from both ends; the NUL is neither, and it shields the line feed before
  it, so the value comes back whole. \<open>DeviceNode.idVendor\<close> of \<open>device.py\<close> strips line
  feeds and NULs and returns \<open>0403\<close> on the same file.
\<close>

theorem attribute_nul_not_stripped:
  "open_read fixture (join (fs_path port1) ''idVendor'') = Inr (''0403'' @ [newline, nul]) \<and>
   node_getattribute fixture port1 ''idVendor'' = Inr (FileValue (Some (''0403'' @ [newline, nul]))) \<and>
   node_getattribute fixture port1 ''idVendor'' \<noteq> Inr (FileValue (Some ''0403'')) \<and>
   DeviceNode_idVendor fixture (fs_path port1) = Inr ''0403''"
  by (simp add: node_getattribute_def FileAttributes_getattribute_def DeviceNode_idVendor_def
      Port_file_attributes_def strip_def strip_chars_def lstrip_chars_def rstrip_chars_def
      whitespace_def fixture_def node_defs fs_defs py_defs)

text \<open>Opening and reading a file raises nothing but \<open>IOError\<close>.\<close>

lemma open_read_error: "open_read fs path = Inl e \<Longrightarrow> \<exists>n. e = IOError n"
  by (auto simp: open_read_def split: if_splits option.splits)

lemma open_read_fails:
  "isdir fs path \<or> map_of (files fs) path = None \<or> map_of (files fs) path = Some None \<Longrightarrow>
   \<exists>n. open_read fs path = Inl (IOError n)"
  by (auto simp: open_read_def)

text \<open>
  C7. For every name in the \<open>__file_attributes__\<close> of a node, when the attribute file
  is a directory, is missing or cannot be read, \<open>__getattribute__\<close> returns \<open>None\<close> and
  raises nothing.
\<close>

theorem attribute_absent_on_failure:
  assumes "attr \<in> set file_attributes"
    and "isdir fs (join path attr) \<or> map_of (files fs) (join path attr) = None \<or>
         map_of (files fs) (join path attr) = Some None"
  shows "FileAttributes_getattribute fs file_attributes path attr = Inr (FileValue None)"
proof -
  from open_read_fails [OF assms(2)] obtain n where "open_read fs (join path attr) = Inl (IOError n)"
    by blast
  with assms(1) show ?thesis
    by (simp add: FileAttributes_getattribute_def)
qed

text \<open>On the example tree, for port \<open>1-1\<close>: \<open>serial\<close> is missing, \<open>product\<close> cannot be
  read, and \<open>uevent\<close> is a directory.\<close>

theorem attribute_absent_on_failure_witness:
  "''serial'' \<in> set Port_file_attributes \<and>
   map_of (files fixture) (join (fs_path port1) ''serial'') = None \<and>
   node_getattribute fixture port1 ''serial'' = Inr (FileValue None) \<and>
   ''product'' \<in> set Port_file_attributes \<and>
   map_of (files fixture) (join (fs_path port1) ''product'') = Some None \<and>
   node_getattribute fixture port1 ''product'' = Inr (FileValue None) \<and>
   ''uevent'' \<in> set Port_file_attributes \<and>
   isdir fixture (join (fs_path port1) ''uevent'') \<and>
   node_getattribute fixture port1 ''uevent'' = Inr (FileValue None)"
  using attribute_absent_on_failure [of "''serial''" Port_file_attributes fixture "fs_path port1"]
    attribute_absent_on_failure [of "''product''" Port_file_attributes fixture "fs_path port1"]
    attribute_absent_on_failure [of "''uevent''" Port_file_attributes fixture "fs_path port1"]
  by (simp add: node_getattribute_def Port_file_attributes_def fixture_def node_defs fs_defs
      py_defs)

section \<open>Constructors\<close>

lemma node_getitem_isdir: "node_getitem fs self key = Inr child \<Longrightarrow> isdir fs (fs_path child)"
  by (cases self) (auto simp: node_getitem_eq split: if_splits)

lemma interfaces_isdir:
  assumes "interfaces fs self = Inr found" and "iface \<in> set found"
  shows "isdir fs (iface_path iface)"
proof -
  from assms(1) obtain children where ls: "listdir fs (fs_path self) = Inr children"
    and loop: "interfaces_loop fs (fs_path self) children [] = Inr found"
    by (auto simp: interfaces_def split: sum.splits)
  from interfaces_loop_from [OF loop] assms(2) show ?thesis by auto
qed

text \<open>
  C10. The constructors of \<open>Bus\<close>, \<open>Port\<close> and \<open>Interface\<close> raise \<open>ValueError\<close> on a
  path that is not a directory and build the node on one that is, so every node that
  \<open>self[key]\<close> or \<open>interfaces\<close> returns is on a directory; the constructor of \<open>USB\<close>
  accepts any path.
\<close>

theorem constructors_require_directory:
  "(\<not> isdir fs path \<longrightarrow>
      Bus_init fs n par path = Inl (ValueError ''Invalid path given'') \<and>
      Port_init fs n par path = Inl (ValueError ''Invalid path given'') \<and>
      Interface_init fs path = Inl (ValueError ''Invalid path given'')) \<and>
   (isdir fs path \<longrightarrow>
      Bus_init fs n par path = Inr (Bus n par path) \<and>
      Port_init fs n par path = Inr (Port n par path) \<and>
      Interface_init fs path = Inr (Interface path)) \<and>
   (\<forall>child. node_getitem fs self key = Inr child \<longrightarrow> isdir fs (fs_path child)) \<and>
   (\<forall>found. interfaces fs self = Inr found \<longrightarrow> (\<forall>iface\<in>set found. isdir fs (iface_path iface))) \<and>
   USB_init path = Inr (USB path)"
  by (auto simp: Bus_init_def Port_init_def Interface_init_def USB_init_def
      dest: node_getitem_isdir interfaces_isdir)

text \<open>On the example tree, with \<open>/nowhere\<close> for a path that is no directory.\<close>

theorem constructors_require_directory_witness:
  "\<not> isdir fixture ''/nowhere'' \<and>
   Bus_init fixture ''1'' usb ''/nowhere'' = Inl (ValueError ''Invalid path given'') \<and>
   Port_init fixture ''1'' bus1 ''/nowhere'' = Inl (ValueError ''Invalid path given'') \<and>
   Interface_init fixture ''/nowhere'' = Inl (ValueError ''Invalid path given'') \<and>
   USB_init ''/nowhere'' = Inr (USB ''/nowhere'') \<and>
   isdir fixture ''/sys/bus/usb/devices/usb1'' \<and>
   Bus_init fixture ''1'' usb ''/sys/bus/usb/devices/usb1'' = Inr bus1 \<and>
   node_getitem fixture usb ''1'' = Inr bus1 \<and> isdir fixture (fs_path bus1) \<and>
   interfaces fixture bus1 = Inr [Interface ''/sys/bus/usb/devices/usb1/1-0:1.0''] \<and>
   isdir fixture ''/sys/bus/usb/devices/usb1/1-0:1.0''"
  using constructors_require_directory [of fixture "''/nowhere''" "''1''" usb usb "''1''"]
    constructors_require_directory [of fixture "''/sys/bus/usb/devices/usb1''" "''1''" usb bus1 "''1''"]
  by (simp add: fixture_def node_defs fs_defs py_defs rx_defs interfaces_def Interface_init_def
      Bus_init_def Port_init_def USB_init_def USB_getitem_def)

section \<open>The serial device of an interface\<close>

lemma tty_scan_none:
  "(\<forall>c\<in>set children. \<not> startswith c ''tty'') \<Longrightarrow> tty_scan path children = Exhausted"
  by (induction children) auto

lemma tty_scan_first:
  "(\<forall>c\<in>set pre. \<not> startswith c ''tty'') \<Longrightarrow> startswith child ''tty'' \<Longrightarrow>
   tty_scan path (pre @ child # post) =
     (if child \<noteq> ''tty'' then Return child else Descend (join path child))"
  by (induction pre) auto

text \<open>
  C5. \<open>match_tty\<close> is decided by the first entry of the listing that starts with
  \<open>tty\<close>: when there is none the result is \<open>None\<close>; when that entry is not \<open>tty\<close>
  itself it is the result; when it is \<open>tty\<close> the result is that of the same search in
  the subdirectory \<open>tty\<close>. In particular a directory whose only such entry is \<open>tty\<close>,
  a directory whose only such entry is \<open>ttyUSB0\<close>, resolves to \<open>ttyUSB0\<close>.
\<close>

theorem tty_first_entry_decides:
  assumes "listdir fs path = Inr children"
  shows "((\<forall>c\<in>set children. \<not> startswith c ''tty'') \<longrightarrow> match_tty fs path = Some (Inr None)) \<and>
         (\<forall>pre child post.
            children = pre @ child # post \<and> (\<forall>c\<in>set pre. \<not> startswith c ''tty'') \<and>
            startswith child ''tty'' \<longrightarrow>
              (child \<noteq> ''tty'' \<longrightarrow> match_tty fs path = Some (Inr (Some child))) \<and>
              (child = ''tty'' \<longrightarrow> match_tty fs path = match_tty fs (join path ''tty''))) \<and>
         (\<forall>sub. ''tty'' \<in> set children \<and> (\<forall>c\<in>set children. startswith c ''tty'' \<longrightarrow> c = ''tty'') \<and>
            listdir fs (join path ''tty'') = Inr sub \<and> ''ttyUSB0'' \<in> set sub \<and>
            (\<forall>c\<in>set sub. startswith c ''tty'' \<longrightarrow> c = ''ttyUSB0'') \<longrightarrow>
              match_tty fs path = Some (Inr (Some ''ttyUSB0'')))"
proof (intro conjI allI impI)
  assume "\<forall>c\<in>set children. \<not> startswith c ''tty''"
  then show "match_tty fs path = Some (Inr None)"
    using assms by (subst match_tty.simps) (simp add: tty_scan_none)
next
  fix pre child post
  assume h: "children = pre @ child # post \<and> (\<forall>c\<in>set pre. \<not> startswith c ''tty'') \<and>
            startswith child ''tty''"
  then have scan: "tty_scan path children =
     (if child \<noteq> ''tty'' then Return child else Descend (join path child))"
    by (simp add: tty_scan_first)
  show "match_tty fs path = Some (Inr (Some child))" if "child \<noteq> ''tty''"
    using assms scan that by (subst match_tty.simps) simp
  show "match_tty fs path = match_tty fs (join path ''tty'')" if "child = ''tty''"
    using assms scan that by (subst match_tty.simps) simp
next
  fix sub
  assume h: "''tty'' \<in> set children \<and> (\<forall>c\<in>set children. startswith c ''tty'' \<longrightarrow> c = ''tty'') \<and>
            listdir fs (join path ''tty'') = Inr sub \<and> ''ttyUSB0'' \<in> set sub \<and>
            (\<forall>c\<in>set sub. startswith c ''tty'' \<longrightarrow> c = ''ttyUSB0'')"
  have first: "\<exists>pre post. xs = pre @ x # post \<and> (\<forall>c\<in>set pre. \<not> startswith c ''tty'')"
    if "x \<in> set xs" "\<forall>c\<in>set xs. startswith c ''tty'' \<longrightarrow> c = x" for x :: string and xs
  proof -
    from that(1) obtain pre post where xs: "xs = pre @ x # post" "x \<notin> set pre"
      by (auto dest: split_list_first)
    with that(2) have "\<forall>c\<in>set pre. \<not> startswith c ''tty''" by auto
    with xs show ?thesis by blast
  qed
  from h first [of "''tty''" children] obtain pre post where
    c: "children = pre @ ''tty'' # post" "\<forall>c\<in>set pre. \<not> startswith c ''tty''" by blast
  from h first [of "''ttyUSB0''" sub] obtain pre' post' where
    s: "sub = pre' @ ''ttyUSB0'' # post'" "\<forall>c\<in>set pre'. \<not> startswith c ''tty''" by blast
  have "match_tty fs path = match_tty fs (join path ''tty'')"
    using assms c by (subst match_tty.simps) (simp add: tty_scan_first)
  also have "\<dots> = Some (Inr (Some ''ttyUSB0''))"
    using h s by (subst match_tty.simps) (simp add: tty_scan_first)
  finally show "match_tty fs path = Some (Inr (Some ''ttyUSB0''))" .
qed

text \<open>On the example tree: the interface of the nested port resolves to \<open>ttyUSB0\<close>
  through its \<open>tty\<close> directory, and the interface of port \<open>1-1\<close> to \<open>None\<close>.\<close>

theorem tty_first_entry_decides_witness:
  "listdir fixture ''/sys/bus/usb/devices/usb1/1-1/1-1.2/1-1.2:1.0'' = Inr [''ep_81'', ''tty''] \<and>
   listdir fixture (join ''/sys/bus/usb/devices/usb1/1-1/1-1.2/1-1.2:1.0'' ''tty'') = Inr [''ttyUSB0''] \<and>
   Interface_tty fixture (Interface ''/sys/bus/usb/devices/usb1/1-1/1-1.2/1-1.2:1.0'') =
     Some (Inr (Some ''ttyUSB0'')) \<and>
   match_tty fixture ''/sys/bus/usb/devices/usb1/1-1/1-1.2/1-1.2:1.0/tty'' =
     Some (Inr (Some ''ttyUSB0'')) \<and>
   listdir fixture ''/sys/bus/usb/devices/usb1/1-1/1-1:1.0'' = Inr [''bInterfaceClass''] \<and>
   Interface_tty fixture (Interface ''/sys/bus/usb/devices/usb1/1-1/1-1:1.0'') = Some (Inr None)"
proof -
  have l1: "listdir fixture ''/sys/bus/usb/devices/usb1/1-1/1-1.2/1-1.2:1.0'' = Inr [''ep_81'', ''tty'']"
    and l2: "listdir fixture ''/sys/bus/usb/devices/usb1/1-1/1-1.2/1-1.2:1.0/tty'' = Inr [''ttyUSB0'']"
    and l3: "listdir fixture ''/sys/bus/usb/devices/usb1/1-1/1-1:1.0'' = Inr [''bInterfaceClass'']"
    by (simp_all add: fixture_def fs_defs)
  have j: "join ''/sys/bus/usb/devices/usb1/1-1/1-1.2/1-1.2:1.0'' ''tty'' =
      ''/sys/bus/usb/devices/usb1/1-1/1-1.2/1-1.2:1.0/tty''"
    by (simp add: py_defs)
  have t1: "match_tty fixture ''/sys/bus/usb/devices/usb1/1-1/1-1.2/1-1.2:1.0'' =
      Some (Inr (Some ''ttyUSB0''))"
    using tty_first_entry_decides [OF l1] l2 by (simp add: j)
  have t2: "match_tty fixture ''/sys/bus/usb/devices/usb1/1-1/1-1.2/1-1.2:1.0/tty'' =
      Some (Inr (Some ''ttyUSB0''))"
    using tty_first_entry_decides [OF l2, THEN conjunct2, THEN conjunct1, rule_format,
        of "[]" "''ttyUSB0''" "[]"]
    by simp
  have t3: "match_tty fixture ''/sys/bus/usb/devices/usb1/1-1/1-1:1.0'' = Some (Inr None)"
    using tty_first_entry_decides [OF l3] by simp
  from l1 l2 l3 j t1 t2 t3 show ?thesis
    by (simp add: Interface_tty_def)
qed

lemma tty_absent_example:
  "Interface_tty fixture (Interface ''/sys/bus/usb/devices/usb1/1-1/1-1:1.0'') = Some (Inr None)"
  unfolding Interface_tty_def
  by (subst match_tty.simps) (simp add: fixture_def fs_defs)

section \<open>The traversal ends\<close>

lemma foldr_max_ge: "n \<in> set ns \<Longrightarrow> n \<le> foldr max ns (0::nat)"
  by (induction ns) (auto simp: max_def)

lemma isdir_length: "isdir fs path \<Longrightarrow> length path \<le> longest_directory fs"
proof -
  assume "isdir fs path"
  then obtain listing where "(path, listing) \<in> set (directories fs)"
    by (auto simp: isdir_def dest: map_of_SomeD)
  then have "length path \<in> set (map (\<lambda>entry. length (fst entry)) (directories fs))"
    by force
  then show ?thesis
    unfolding longest_directory_def by (rule foldr_max_ge)
qed

lemma listdir_isdir: "listdir fs path = Inr children \<Longrightarrow> isdir fs path"
  by (auto simp: listdir_def isdir_def split: option.splits)

lemma join_longer:
  "b \<noteq> [] \<Longrightarrow> \<not> startswith b [sep] \<Longrightarrow> length a < length (join a b)"
  by (cases b) (auto simp: join_def)

lemma tty_scan_Descend: "tty_scan path children = Descend sub \<Longrightarrow> sub = join path ''tty''"
  by (induction children) (auto split: if_splits)

lemma match_tty_terminates: "\<exists>r. match_tty fs path = Some r"
proof (induction "Suc (longest_directory fs) - length path" arbitrary: path rule: less_induct)
  case less
  show ?case
  proof (cases "listdir fs path")
    case (Inl e)
    then have "match_tty fs path = Some (Inl e)"
      by (subst match_tty.simps) simp
    then show ?thesis by blast
  next
    case (Inr children)
    show ?thesis
    proof (cases "tty_scan path children")
      case Exhausted
      with Inr have "match_tty fs path = Some (Inr None)"
        by (subst match_tty.simps) simp
      then show ?thesis by blast
    next
      case (Return child)
      with Inr have "match_tty fs path = Some (Inr (Some child))"
        by (subst match_tty.simps) simp
      then show ?thesis by blast
    next
      case (Descend sub)
      then have sub: "sub = join path ''tty''" by (rule tty_scan_Descend)
      have "length path < length sub"
        unfolding sub by (rule join_longer) (simp_all add: sep_def)
      moreover have "length path \<le> longest_directory fs"
        using Inr by (intro isdir_length listdir_isdir)
      ultimately have "Suc (longest_directory fs) - length sub < Suc (longest_directory fs) - length path"
        by arith
      from less [OF this] obtain r where "match_tty fs sub = Some r" by blast
      moreover from Inr Descend have "match_tty fs path = match_tty fs sub"
        by (subst match_tty.simps) simp
      ultimately show ?thesis by simp
    qed
  qed
qed

lemma append_ifaces_terminates: "\<exists>r. append_ifaces fs tty found ifaces = Some r"
proof (induction found arbitrary: ifaces)
  case Nil
  then show ?case by simp
next
  case (Cons iface rest)
  obtain r where r: "Interface_tty fs iface = Some r"
    using match_tty_terminates [of fs "iface_path iface"] by (auto simp: Interface_tty_def)
  show ?case
    using Cons [of ifaces] Cons [of "ifaces @ [iface]"] r
    by (cases r) (auto split: option.splits)
qed

lemma collect_ifaces_terminates: "\<exists>r. collect_ifaces fs tty child ifaces = Some r"
  using append_ifaces_terminates
  by (auto simp: collect_ifaces_def split: sum.splits)

lemma aggregate_children_terminates:
  assumes "\<And>child ifaces. child \<in> set children \<Longrightarrow> \<exists>r. recurse child ifaces = Some r"
  shows "\<exists>r. aggregate_children recurse fs tty children ifaces = Some r"
  using assms
proof (induction children arbitrary: ifaces)
  case Nil
  then show ?case by simp
next
  case (Cons child rest)
  obtain r1 where r1: "collect_ifaces fs tty child ifaces = Some r1"
    using collect_ifaces_terminates by blast
  show ?case
  proof (cases r1)
    case (Inl e)
    with r1 show ?thesis by simp
  next
    case (Inr ifaces1)
    obtain r2 where r2: "recurse child ifaces1 = Some r2"
      using Cons.prems [of child ifaces1] by auto
    show ?thesis
    proof (cases r2)
      case (Inl e)
      with r1 r2 \<open>r1 = Inr ifaces1\<close> show ?thesis by simp
    next
      case (Inr ifaces2)
      have "\<exists>r. aggregate_children recurse fs tty rest ifaces2 = Some r"
        by (rule Cons.IH) (simp add: Cons.prems)
      with r1 r2 Inr \<open>r1 = Inr ifaces1\<close> show ?thesis by simp
    qed
  qed
qed

lemma getitems_member:
  "getitems fs self keys = Inr children \<Longrightarrow> child \<in> set children \<Longrightarrow>
   \<exists>key. node_getitem fs self key = Inr child"
  by (induction keys arbitrary: children) (auto split: sum.splits)

text \<open>\<open>values()\<close> fetches a child for every key of \<open>__iter__\<close>, in the order of the
  keys.\<close>

lemma getitems_all:
  "getitems fs self keys = Inr children \<Longrightarrow>
   list_all2 (\<lambda>key child. node_getitem fs self key = Inr child) keys children"
  by (induction keys arbitrary: children) (auto split: sum.splits)

lemma values_all:
  "Container_values fs self = Inr children \<Longrightarrow>
   \<exists>keys. node_iter fs self = Inr keys \<and>
     list_all2 (\<lambda>key child. node_getitem fs self key = Inr child) keys children"
  by (auto simp: Container_values_def split: sum.splits dest: getitems_all)

lemma values_member:
  "Container_values fs self = Inr children \<Longrightarrow> child \<in> set children \<Longrightarrow>
   \<exists>key. node_getitem fs self key = Inr child"
  by (auto simp: Container_values_def split: sum.splits dest: getitems_member)

lemma getitem_USB:
  "node_getitem fs (USB p) key = Inr child \<Longrightarrow>
   child = Bus key (USB p) (join p (''usb'' @ key)) \<and> isdir fs (fs_path child)"
  by (auto simp: node_getitem_eq split: if_splits)

lemma getitem_Bus:
  "node_getitem fs (Bus n par p) key = Inr child \<Longrightarrow>
   child = Port key (Bus n par p) (join p (n @ ''-'' @ key)) \<and> isdir fs (fs_path child)"
  by (auto simp: node_getitem_eq split: if_splits)

lemma getitem_Port:
  "node_getitem fs (Port n par p) key = Inr child \<Longrightarrow>
   child = Port key (Port n par p) (join p (format_opt (fs_name p) @ ''.'' @ key)) \<and>
   isdir fs (fs_path child)"
  by (auto simp: node_getitem_eq split: if_splits)

lemma values_provider:
  assumes "Container_values fs self = Inr children" and "child \<in> set children"
  shows "is_InterfaceProvider child"
proof -
  from values_member [OF assms] obtain key where "node_getitem fs self key = Inr child" by blast
  then show ?thesis
    by (cases self) (auto dest!: getitem_USB getitem_Bus getitem_Port simp del: node_getitem.simps)
qed

lemma fs_name_no_sep:
  assumes "fs_name p = Some n"
  shows "sep \<notin> set n"
proof -
  from fs_name_Some_sep [OF assms] obtain xs ys where p: "p = xs @ sep # ys" and ys: "sep \<notin> set ys"
    by (auto dest: split_list_last)
  from ys have "fs_name p = Some ys"
    unfolding p by (rule fs_name_append)
  with assms ys show ?thesis by simp
qed

lemma port_dirname_relative:
  "format_opt (fs_name p) @ ''.'' @ key \<noteq> [] \<and>
   \<not> startswith (format_opt (fs_name p) @ ''.'' @ key) [sep]"
proof (cases "fs_name p")
  case None
  then show ?thesis by (simp add: sep_def)
next
  case (Some n)
  then have "sep \<notin> set n" by (rule fs_name_no_sep)
  with Some show ?thesis
    by (cases n) (auto simp: sep_def)
qed

lemma port_child_longer:
  assumes "node_getitem fs (Port n par p) key = Inr child"
  shows "\<exists>k q. child = Port k (Port n par p) q \<and> isdir fs q \<and> length p < length q"
proof -
  from getitem_Port [OF assms]
  have c: "child = Port key (Port n par p) (join p (format_opt (fs_name p) @ ''.'' @ key))"
    and d: "isdir fs (fs_path child)" by blast+
  have "length p < length (join p (format_opt (fs_name p) @ ''.'' @ key))"
    using port_dirname_relative [of p key] by (intro join_longer) simp_all
  with c d show ?thesis by simp
qed

lemma aggregate_Port_terminates:
  "isdir fs p \<Longrightarrow> longest_directory fs < length p + depth \<Longrightarrow>
   \<exists>r. aggregate depth fs tty (Port n par p) ifaces = Some r"
proof (induction depth arbitrary: n par p ifaces)
  case 0
  then show ?case using isdir_length [of fs p] by simp
next
  case (Suc depth)
  show ?case
  proof (cases "Container_values fs (Port n par p)")
    case (Inl e)
    then show ?thesis by simp
  next
    case (Inr children)
    have "\<exists>r. aggregate depth fs tty child acc = Some r" if "child \<in> set children" for child acc
    proof -
      from values_member [OF Inr that] obtain key where
        "node_getitem fs (Port n par p) key = Inr child" by blast
      from port_child_longer [OF this] obtain k q where
        c: "child = Port k (Port n par p) q" "isdir fs q" "length p < length q" by blast
      with Suc.prems have "longest_directory fs < length q + depth" by simp
      from Suc.IH [OF c(2) this] c(1) show ?thesis by simp
    qed
    then have "\<exists>r. aggregate_children (aggregate depth fs tty) fs tty children ifaces = Some r"
      by (rule aggregate_children_terminates)
    with Inr show ?thesis by simp
  qed
qed

lemma aggregate_terminates:
  assumes "longest_directory fs + 3 \<le> depth"
  shows "\<exists>r. aggregate depth fs tty node ifaces = Some r"
proof -
  have port: "\<exists>r. aggregate d fs tty (Port n par p) acc = Some r"
    if "longest_directory fs + 1 \<le> d" for d n par p acc
  proof (cases "Container_values fs (Port n par p)")
    case (Inl e)
    with that show ?thesis by (cases d) simp_all
  next
    case (Inr children)
    then have "isdir fs p"
      by (auto simp: Container_values_def Port_iter_def split: sum.splits dest: listdir_isdir)
    then show ?thesis
      using that by (intro aggregate_Port_terminates) simp_all
  qed
  have bus: "\<exists>r. aggregate d fs tty (Bus n par p) acc = Some r"
    if "longest_directory fs + 2 \<le> d" for d n par p acc
  proof -
    from that obtain d' where d: "d = Suc d'" and d': "longest_directory fs + 1 \<le> d'"
      by (cases d) simp_all
    show ?thesis
    proof (cases "Container_values fs (Bus n par p)")
      case (Inl e)
      with d show ?thesis by simp
    next
      case (Inr children)
      have "\<exists>r. aggregate d' fs tty child acc' = Some r" if "child \<in> set children" for child acc'
      proof -
        from values_member [OF Inr that] obtain key where
          "node_getitem fs (Bus n par p) key = Inr child" by blast
        from getitem_Bus [OF this] port [OF d'] show ?thesis by auto
      qed
      then have "\<exists>r. aggregate_children (aggregate d' fs tty) fs tty children acc = Some r"
        by (rule aggregate_children_terminates)
      with Inr d show ?thesis by simp
    qed
  qed
  have usb: "\<exists>r. aggregate d fs tty (USB p) acc = Some r"
    if "longest_directory fs + 3 \<le> d" for d p acc
  proof -
    from that obtain d' where d: "d = Suc d'" and d': "longest_directory fs + 2 \<le> d'"
      by (cases d) simp_all
    show ?thesis
    proof (cases "Container_values fs (USB p)")
      case (Inl e)
      with d show ?thesis by simp
    next
      case (Inr children)
      have "\<exists>r. aggregate d' fs tty child acc' = Some r" if "child \<in> set children" for child acc'
      proof -
        from values_member [OF Inr that] obtain key where
          "node_getitem fs (USB p) key = Inr child" by blast
        from getitem_USB [OF this] bus [OF d'] show ?thesis by auto
      qed
      then have "\<exists>r. aggregate_children (aggregate d' fs tty) fs tty children acc = Some r"
        by (rule aggregate_children_terminates)
      with Inr d show ?thesis by simp
    qed
  qed
  from assms show ?thesis
    by (cases node) (auto intro: usb bus port)
qed

section \<open>More depth, same result\<close>

lemma aggregate_children_mono:
  assumes "\<And>child acc r. child \<in> set children \<Longrightarrow> rec1 child acc = Some r \<Longrightarrow> rec2 child acc = Some r"
    and "aggregate_children rec1 fs tty children ifaces = Some r"
  shows "aggregate_children rec2 fs tty children ifaces = Some r"
  using assms
proof (induction children arbitrary: ifaces)
  case Nil
  then show ?case by simp
next
  case (Cons child rest)
  from Cons.prems(2) obtain r1 where r1: "collect_ifaces fs tty child ifaces = Some r1"
    by (auto split: option.splits)
  show ?case
  proof (cases r1)
    case (Inl e)
    with r1 Cons.prems(2) show ?thesis by auto
  next
    case (Inr ifaces1)
    with r1 Cons.prems(2) obtain r2 where r2: "rec1 child ifaces1 = Some r2"
      by (auto split: option.splits)
    then have r2': "rec2 child ifaces1 = Some r2"
      by (intro Cons.prems(1)) simp_all
    show ?thesis
    proof (cases r2)
      case (Inl e)
      with r1 r2 r2' \<open>r1 = Inr ifaces1\<close> Cons.prems(2) show ?thesis by auto
    next
      case (Inr ifaces2)
      with r1 r2 \<open>r1 = Inr ifaces1\<close> Cons.prems(2)
      have "aggregate_children rec1 fs tty rest ifaces2 = Some r" by simp
      then have "aggregate_children rec2 fs tty rest ifaces2 = Some r"
        by (intro Cons.IH) (auto intro: Cons.prems(1))
      with r1 r2' Inr \<open>r1 = Inr ifaces1\<close> show ?thesis by simp
    qed
  qed
qed

lemma aggregate_Suc:
  "aggregate depth fs tty node ifaces = Some r \<Longrightarrow> aggregate (Suc depth) fs tty node ifaces = Some r"
proof (induction depth arbitrary: node ifaces r)
  case 0
  then show ?case by simp
next
  case (Suc depth)
  show ?case
  proof (cases "Container_values fs node")
    case (Inl e)
    with Suc.prems show ?thesis by simp
  next
    case (Inr children)
    with Suc.prems have "aggregate_children (aggregate depth fs tty) fs tty children ifaces = Some r"
      by simp
    then have "aggregate_children (aggregate (Suc depth) fs tty) fs tty children ifaces = Some r"
      by (rule aggregate_children_mono [rotated]) (rule Suc.IH)
    with Inr show ?thesis by simp
  qed
qed

lemma aggregate_mono:
  "depth \<le> depth' \<Longrightarrow> aggregate depth fs tty node ifaces = Some r \<Longrightarrow>
   aggregate depth' fs tty node ifaces = Some r"
  by (induction depth' ) (auto simp: le_Suc_eq dest: aggregate_Suc simp del: aggregate.simps)

section \<open>What the traversal collects\<close>

lemma has_tty_iff: "has_tty fs iface \<longleftrightarrow> (\<exists>t. Interface_tty fs iface = Some (Inr (Some t)))"
  by (auto simp: has_tty_def split: option.splits sum.splits)

lemma append_ifaces_result:
  "append_ifaces fs tty found ifaces = Some (Inr ifaces') \<Longrightarrow> ifaces' = ifaces @ kept fs tty found"
proof (induction found arbitrary: ifaces)
  case Nil
  then show ?case by (simp add: kept_def)
next
  case (Cons iface rest)
  show ?case
  proof (cases tty)
    case False
    with Cons.prems have "append_ifaces fs tty rest (ifaces @ [iface]) = Some (Inr ifaces')" by simp
    from Cons.IH [OF this] False show ?thesis by (simp add: kept_def)
  next
    case True
    show ?thesis
    proof (cases "has_tty fs iface")
      case yes: True
      with True Cons.prems have "append_ifaces fs tty rest (ifaces @ [iface]) = Some (Inr ifaces')"
        by (auto simp: has_tty_iff)
      from Cons.IH [OF this] True yes show ?thesis by (simp add: kept_def)
    next
      case no: False
      with True Cons.prems have "append_ifaces fs tty rest ifaces = Some (Inr ifaces')"
        by (auto simp: has_tty_iff split: option.splits sum.splits)
      from Cons.IH [OF this] True no show ?thesis by (simp add: kept_def)
    qed
  qed
qed

lemma append_ifaces_ok:
  "(tty \<longrightarrow> (\<forall>iface\<in>set found. \<exists>v. Interface_tty fs iface = Some (Inr v))) \<Longrightarrow>
   append_ifaces fs tty found ifaces = Some (Inr (ifaces @ kept fs tty found))"
proof (induction found arbitrary: ifaces)
  case Nil
  then show ?case by (simp add: kept_def)
next
  case (Cons iface rest)
  from Cons.prems have rest: "tty \<longrightarrow> (\<forall>iface\<in>set rest. \<exists>v. Interface_tty fs iface = Some (Inr v))"
    by simp
  show ?case
  proof (cases tty)
    case False
    with Cons.IH [OF rest, of "ifaces @ [iface]"] show ?thesis by (simp add: kept_def)
  next
    case True
    with Cons.prems obtain v where v: "Interface_tty fs iface = Some (Inr v)" by auto
    show ?thesis
    proof (cases v)
      case None
      with v have "\<not> has_tty fs iface" by (simp add: has_tty_iff)
      with True v None Cons.IH [OF rest, of ifaces] show ?thesis by (simp add: kept_def)
    next
      case (Some t)
      with v have "has_tty fs iface" by (simp add: has_tty_iff)
      with True v Some Cons.IH [OF rest, of "ifaces @ [iface]"] show ?thesis by (simp add: kept_def)
    qed
  qed
qed

lemma collect_ifaces_result:
  "is_InterfaceProvider child \<Longrightarrow> collect_ifaces fs tty child ifaces = Some (Inr ifaces') \<Longrightarrow>
   \<exists>found. interfaces fs child = Inr found \<and> ifaces' = ifaces @ kept fs tty found"
  by (auto simp: collect_ifaces_def split: sum.splits dest: append_ifaces_result)

lemma collect_ifaces_ok:
  "is_InterfaceProvider child \<Longrightarrow> interfaces fs child = Inr found \<Longrightarrow>
   (tty \<longrightarrow> (\<forall>iface\<in>set found. \<exists>v. Interface_tty fs iface = Some (Inr v))) \<Longrightarrow>
   collect_ifaces fs tty child ifaces = Some (Inr (ifaces @ kept fs tty found))"
  by (simp add: collect_ifaces_def append_ifaces_ok)

lemma aggregate_children_sound:
  assumes "\<forall>child\<in>set nodes. is_InterfaceProvider child"
    and "\<And>child acc found. child \<in> set nodes \<Longrightarrow> recurse child acc = Some (Inr found) \<Longrightarrow>
           \<exists>children below iss. Container_values fs child = Inr children \<and>
             visits fs children below \<and>
             list_all2 (\<lambda>n found. interfaces fs n = Inr found) below iss \<and>
             found = acc @ concat (map (kept fs tty) iss)"
    and "aggregate_children recurse fs tty nodes ifaces = Some (Inr found)"
  shows "\<exists>order iss. visits fs nodes order \<and>
           list_all2 (\<lambda>n found. interfaces fs n = Inr found) order iss \<and>
           found = ifaces @ concat (map (kept fs tty) iss)"
  using assms
proof (induction nodes arbitrary: ifaces)
  case Nil
  have "visits fs [] [] \<and> list_all2 (\<lambda>n found. interfaces fs n = Inr found) [] [] \<and>
        found = ifaces @ concat (map (kept fs tty) [])"
    using Nil.prems(3) by (simp add: visits_Nil)
  then show ?case by blast
next
  case (Cons child rest)
  from Cons.prems(3) obtain ifaces1 where c1: "collect_ifaces fs tty child ifaces = Some (Inr ifaces1)"
    by (auto split: option.splits sum.splits)
  with Cons.prems(3) obtain ifaces2 where c2: "recurse child ifaces1 = Some (Inr ifaces2)"
    by (auto split: option.splits sum.splits)
  with c1 Cons.prems(3) have c3: "aggregate_children recurse fs tty rest ifaces2 = Some (Inr found)"
    by simp
  from Cons.prems(1) have "is_InterfaceProvider child" by simp
  from collect_ifaces_result [OF this c1] obtain own where
    own: "interfaces fs child = Inr own" "ifaces1 = ifaces @ kept fs tty own" by blast
  from Cons.prems(2) [OF _ c2] obtain children below iss1 where
    sub: "Container_values fs child = Inr children" "visits fs children below"
      "list_all2 (\<lambda>n found. interfaces fs n = Inr found) below iss1"
      "ifaces2 = ifaces1 @ concat (map (kept fs tty) iss1)" by auto
  have "\<exists>order iss. visits fs rest order \<and>
           list_all2 (\<lambda>n found. interfaces fs n = Inr found) order iss \<and>
           found = ifaces2 @ concat (map (kept fs tty) iss)"
  proof (rule Cons.IH [OF _ _ c3])
    show "\<forall>child\<in>set rest. is_InterfaceProvider child"
      using Cons.prems(1) by simp
  next
    fix child' acc found'
    assume "child' \<in> set rest" and r: "recurse child' acc = Some (Inr found')"
    then have "child' \<in> set (child # rest)" by simp
    then show "\<exists>children below iss. Container_values fs child' = Inr children \<and>
             visits fs children below \<and>
             list_all2 (\<lambda>n found. interfaces fs n = Inr found) below iss \<and>
             found' = acc @ concat (map (kept fs tty) iss)"
      using r by (rule Cons.prems(2))
  qed
  then obtain after iss2 where
    rest: "visits fs rest after" "list_all2 (\<lambda>n found. interfaces fs n = Inr found) after iss2"
      "found = ifaces2 @ concat (map (kept fs tty) iss2)" by blast
  have "visits fs (child # rest) (child # below @ after)"
    using sub(1,2) rest(1) by (rule visits_Cons)
  moreover have "list_all2 (\<lambda>n found. interfaces fs n = Inr found) (child # below @ after)
      (own # iss1 @ iss2)"
    using own(1) sub(3) rest(2) by (simp add: list_all2_appendI)
  moreover have "found = ifaces @ concat (map (kept fs tty) (own # iss1 @ iss2))"
    using own(2) sub(4) rest(3) by simp
  ultimately show ?case by blast
qed

lemma aggregate_sound:
  "aggregate depth fs tty node ifaces = Some (Inr found) \<Longrightarrow>
   \<exists>children order iss. Container_values fs node = Inr children \<and>
     visits fs children order \<and>
     list_all2 (\<lambda>n found. interfaces fs n = Inr found) order iss \<and>
     found = ifaces @ concat (map (kept fs tty) iss)"
proof (induction depth arbitrary: node ifaces found)
  case 0
  then show ?case by simp
next
  case (Suc depth)
  from Suc.prems obtain children where ch: "Container_values fs node = Inr children"
    and run: "aggregate_children (aggregate depth fs tty) fs tty children ifaces = Some (Inr found)"
    by (auto split: sum.splits)
  have "\<exists>order iss. visits fs children order \<and>
           list_all2 (\<lambda>n found. interfaces fs n = Inr found) order iss \<and>
           found = ifaces @ concat (map (kept fs tty) iss)"
  proof (rule aggregate_children_sound [OF _ _ run])
    show "\<forall>child\<in>set children. is_InterfaceProvider child"
      using ch by (auto dest: values_provider)
  next
    fix child acc found'
    assume "aggregate depth fs tty child acc = Some (Inr found')"
    then show "\<exists>children below iss. Container_values fs child = Inr children \<and>
             visits fs children below \<and>
             list_all2 (\<lambda>n found. interfaces fs n = Inr found) below iss \<and>
             found' = acc @ concat (map (kept fs tty) iss)"
      by (rule Suc.IH)
  qed
  with ch show ?case by blast
qed

lemma visits_complete:
  assumes "visits fs nodes order"
    and "list_all2 (\<lambda>n found. interfaces fs n = Inr found) order iss"
    and "\<forall>child\<in>set nodes. is_InterfaceProvider child"
    and "tty \<longrightarrow> (\<forall>found\<in>set iss. \<forall>iface\<in>set found. \<exists>v. Interface_tty fs iface = Some (Inr v))"
  shows "\<exists>d0. \<forall>d\<ge>d0. \<forall>ifaces.
           aggregate_children (aggregate d fs tty) fs tty nodes ifaces =
             Some (Inr (ifaces @ concat (map (kept fs tty) iss)))"
  using assms
proof (induction arbitrary: iss rule: visits.induct)
  case visits_Nil
  then show ?case by simp
next
  case (visits_Cons child children below rest after)
  from visits_Cons.prems(1) obtain own iss' where
    iss: "iss = own # iss'" and own: "interfaces fs child = Inr own"
    and all': "list_all2 (\<lambda>n found. interfaces fs n = Inr found) (below @ after) iss'"
    by (auto simp: list_all2_Cons1)
  from all' obtain iss1 iss2 where
    iss': "iss' = iss1 @ iss2"
    and all1: "list_all2 (\<lambda>n found. interfaces fs n = Inr found) below iss1"
    and all2: "list_all2 (\<lambda>n found. interfaces fs n = Inr found) after iss2"
    by (auto simp: list_all2_append1)
  have prov1: "\<forall>c\<in>set children. is_InterfaceProvider c"
    using visits_Cons.hyps(1) by (auto dest: values_provider)
  have prov2: "\<forall>c\<in>set rest. is_InterfaceProvider c" and prov: "is_InterfaceProvider child"
    using visits_Cons.prems(2) by simp_all
  have tty0: "tty \<longrightarrow> (\<forall>iface\<in>set own. \<exists>v. Interface_tty fs iface = Some (Inr v))"
    and tty1: "tty \<longrightarrow> (\<forall>found\<in>set iss1. \<forall>iface\<in>set found. \<exists>v. Interface_tty fs iface = Some (Inr v))"
    and tty2: "tty \<longrightarrow> (\<forall>found\<in>set iss2. \<forall>iface\<in>set found. \<exists>v. Interface_tty fs iface = Some (Inr v))"
    using visits_Cons.prems(3) iss iss' by auto
  from visits_Cons.IH(1) [OF all1 prov1 tty1] obtain d1 where
    d1: "\<And>d ifaces. d1 \<le> d \<Longrightarrow> aggregate_children (aggregate d fs tty) fs tty children ifaces =
             Some (Inr (ifaces @ concat (map (kept fs tty) iss1)))" by blast
  from visits_Cons.IH(2) [OF all2 prov2 tty2] obtain d2 where
    d2: "\<And>d ifaces. d2 \<le> d \<Longrightarrow> aggregate_children (aggregate d fs tty) fs tty rest ifaces =
             Some (Inr (ifaces @ concat (map (kept fs tty) iss2)))" by blast
  have "aggregate_children (aggregate d fs tty) fs tty (child # rest) ifaces =
             Some (Inr (ifaces @ concat (map (kept fs tty) iss)))"
    if d: "max (Suc d1) d2 \<le> d" for d ifaces
  proof -
    from d obtain d' where d': "d = Suc d'" "d1 \<le> d'" by (cases d) auto
    have a: "collect_ifaces fs tty child ifaces = Some (Inr (ifaces @ kept fs tty own))"
      using prov own tty0 by (rule collect_ifaces_ok)
    have b: "aggregate d fs tty child (ifaces @ kept fs tty own) =
        Some (Inr ((ifaces @ kept fs tty own) @ concat (map (kept fs tty) iss1)))"
      using visits_Cons.hyps(1) d1 [OF d'(2)] by (simp add: d'(1))
    have c: "aggregate_children (aggregate d fs tty) fs tty rest
        ((ifaces @ kept fs tty own) @ concat (map (kept fs tty) iss1)) =
        Some (Inr (((ifaces @ kept fs tty own) @ concat (map (kept fs tty) iss1)) @
           concat (map (kept fs tty) iss2)))"
      using d by (intro d2) simp
    show ?thesis
      using a b c by (simp add: iss iss' del: aggregate.simps)
  qed
  then show ?case by blast
qed

lemma aggregate_complete:
  assumes ch: "Container_values fs node = Inr children"
    and v: "visits fs children order"
    and all: "list_all2 (\<lambda>n found. interfaces fs n = Inr found) order iss"
    and tty: "tty \<longrightarrow> (\<forall>found\<in>set iss. \<forall>iface\<in>set found. \<exists>v. Interface_tty fs iface = Some (Inr v))"
    and depth: "longest_directory fs + 3 \<le> depth"
  shows "aggregate depth fs tty node ifaces = Some (Inr (ifaces @ concat (map (kept fs tty) iss)))"
proof -
  have "\<forall>child\<in>set children. is_InterfaceProvider child"
    using ch by (auto dest: values_provider)
  from visits_complete [OF v all this tty] obtain d0 where
    d0: "\<And>d ifaces. d0 \<le> d \<Longrightarrow> aggregate_children (aggregate d fs tty) fs tty children ifaces =
             Some (Inr (ifaces @ concat (map (kept fs tty) iss)))" by blast
  have big: "aggregate (Suc (max d0 depth)) fs tty node ifaces =
      Some (Inr (ifaces @ concat (map (kept fs tty) iss)))"
    using ch d0 [of "max d0 depth" ifaces] by simp
  from aggregate_terminates [OF depth] obtain r where r: "aggregate depth fs tty node ifaces = Some r"
    by blast
  have "aggregate (Suc (max d0 depth)) fs tty node ifaces = Some r"
    by (rule aggregate_mono [OF _ r]) simp
  with big r show ?thesis by simp
qed

lemma visits_providers:
  "visits fs nodes order \<Longrightarrow> \<forall>child\<in>set nodes. is_InterfaceProvider child \<Longrightarrow>
   \<forall>n\<in>set order. is_InterfaceProvider n"
proof (induction rule: visits.induct)
  case visits_Nil
  then show ?case by simp
next
  case (visits_Cons child children below rest after)
  have "\<forall>c\<in>set children. is_InterfaceProvider c"
    using visits_Cons.hyps(1) by (auto dest: values_provider)
  with visits_Cons show ?case by auto
qed

section \<open>The example trees, walked\<close>

lemma fixture_values:
  "Container_values fixture usb = Inr [bus1]"
  "Container_values fixture bus1 = Inr [port1]"
  "Container_values fixture port1 = Inr [port12]"
  "Container_values fixture port12 = Inr []"
  by (simp_all add: Container_values_def USB_iter_def Bus_iter_def Port_iter_def USB_getitem_def
      Bus_getitem_def Port_getitem_def Bus_init_def Port_init_def fixture_def node_defs fs_defs
      py_defs rx_defs)

lemma fixture_interfaces:
  "interfaces fixture bus1 = Inr [Interface ''/sys/bus/usb/devices/usb1/1-0:1.0'']"
  "interfaces fixture port1 = Inr [Interface ''/sys/bus/usb/devices/usb1/1-1/1-1:1.0'']"
  "interfaces fixture port12 = Inr [Interface ''/sys/bus/usb/devices/usb1/1-1/1-1.2/1-1.2:1.0'']"
  by (simp_all add: interfaces_def Interface_init_def fixture_def node_defs fs_defs py_defs rx_defs)

lemma fixture_tty:
  "Interface_tty fixture (Interface ''/sys/bus/usb/devices/usb1/1-0:1.0'') = Some (Inr None)"
  "Interface_tty fixture (Interface ''/sys/bus/usb/devices/usb1/1-1/1-1:1.0'') = Some (Inr None)"
  "Interface_tty fixture (Interface ''/sys/bus/usb/devices/usb1/1-1/1-1.2/1-1.2:1.0'') =
     Some (Inr (Some ''ttyUSB0''))"
  unfolding Interface_tty_def
    apply (subst match_tty.simps, simp add: fixture_def fs_defs)
   apply (subst match_tty.simps, simp add: fixture_def fs_defs)
  apply (subst match_tty.simps, simp add: fixture_def fs_defs py_defs)
  apply (subst match_tty.simps, simp add: fixture_def fs_defs py_defs)
  done

lemma fixture_visits: "visits fixture [bus1] [bus1, port1, port12]"
proof -
  have v2: "visits fixture [port12] [port12]"
    using visits_Cons [OF fixture_values(4) visits_Nil visits_Nil] by simp
  have v1: "visits fixture [port1] [port1, port12]"
    using visits_Cons [OF fixture_values(3) v2 visits_Nil] by simp
  show ?thesis
    using visits_Cons [OF fixture_values(2) v1 visits_Nil] by simp
qed

lemma bare_values:
  "Container_values bare (USB ''/d'') = Inr [Bus ''1'' (USB ''/d'') ''/d/usb1'']"
  "Container_values bare (Bus ''1'' (USB ''/d'') ''/d/usb1'') =
     Inr [Port ''1'' (Bus ''1'' (USB ''/d'') ''/d/usb1'') ''/d/usb1/1-1'']"
  "Container_values bare (Port ''1'' (Bus ''1'' (USB ''/d'') ''/d/usb1'') ''/d/usb1/1-1'') = Inr []"
  by (simp_all add: Container_values_def USB_iter_def Bus_iter_def Port_iter_def USB_getitem_def
      Bus_getitem_def Port_getitem_def Bus_init_def Port_init_def bare_def fs_defs
      py_defs rx_defs)

lemma bare_interfaces:
  "interfaces bare (Bus ''1'' (USB ''/d'') ''/d/usb1'') = Inr []"
  "interfaces bare (Port ''1'' (Bus ''1'' (USB ''/d'') ''/d/usb1'') ''/d/usb1/1-1'') = Inr []"
  by (simp_all add: interfaces_def Interface_init_def bare_def fs_defs py_defs rx_defs)

lemma bare_visits:
  "visits bare [Bus ''1'' (USB ''/d'') ''/d/usb1'']
     [Bus ''1'' (USB ''/d'') ''/d/usb1'',
      Port ''1'' (Bus ''1'' (USB ''/d'') ''/d/usb1'') ''/d/usb1/1-1'']"
proof -
  have v1: "visits bare [Port ''1'' (Bus ''1'' (USB ''/d'') ''/d/usb1'') ''/d/usb1/1-1'']
      [Port ''1'' (Bus ''1'' (USB ''/d'') ''/d/usb1'') ''/d/usb1/1-1'']"
    using visits_Cons [OF bare_values(3) visits_Nil visits_Nil] by simp
  show ?thesis
    using visits_Cons [OF bare_values(2) v1 visits_Nil] by simp
qed

lemma hub_values:
  "Container_values hub (USB ''/h'') = Inr [hub_bus]"
  "Container_values hub hub_bus = Inr [hub_port1]"
  "Container_values hub hub_port1 = Inr []"
  by (simp_all add: Container_values_def USB_iter_def Bus_iter_def Port_iter_def USB_getitem_def
      Bus_getitem_def Port_getitem_def Bus_init_def Port_init_def hub_def node_defs fs_defs
      py_defs rx_defs)

lemma hub_interfaces:
  "interfaces hub hub_bus = Inr []"
  "interfaces hub hub_port1 = Inr [Interface ''/h/usb1/1-1/1-1:1.0'']"
  by (simp_all add: interfaces_def Interface_init_def hub_def node_defs fs_defs py_defs rx_defs)

lemma hub_visits: "visits hub [hub_bus] [hub_bus, hub_port1]"
proof -
  have v1: "visits hub [hub_port1] [hub_port1]"
    using visits_Cons [OF hub_values(3) visits_Nil visits_Nil] by simp
  show ?thesis
    using visits_Cons [OF hub_values(2) v1 visits_Nil] by simp
qed

section \<open>Aggregation\<close>

text \<open>
  The list returned and the walk. With \<open>tty\<close> not set: the call ends, once the depth
  allowed exceeds the longest directory path by three; when it returns a list, the
  walk from the \<open>values()\<close> of the root exists, comes by \<open>Bus\<close> and \<open>Port\<close> nodes only, and
  the list is the concatenation, in the order of the walk, of the \<open>interfaces\<close> of
  every node of the walk, a node before the nodes below it; and when the walk exists
  and \<open>interfaces\<close> returns on each of its nodes, the call returns that concatenation.
\<close>

lemma aggregated_interfaces_walk:
  "(longest_directory fs + 3 \<le> depth \<longrightarrow>
      (\<exists>r. aggregated_interfaces depth fs (USB p) False = Some r)) \<and>
   (aggregated_interfaces depth fs (USB p) False = Some (Inr found) \<longrightarrow>
      (\<exists>children order iss.
         Container_values fs (USB p) = Inr children \<and> visits fs children order \<and>
         (\<forall>n\<in>set order. is_InterfaceProvider n) \<and>
         list_all2 (\<lambda>n own. interfaces fs n = Inr own) order iss \<and> found = concat iss)) \<and>
   (longest_directory fs + 3 \<le> depth \<and> Container_values fs (USB p) = Inr children \<and>
    visits fs children order \<and> list_all2 (\<lambda>n own. interfaces fs n = Inr own) order iss \<longrightarrow>
      aggregated_interfaces depth fs (USB p) False = Some (Inr (concat iss)))"
proof (intro conjI impI)
  assume "longest_directory fs + 3 \<le> depth"
  then show "\<exists>r. aggregated_interfaces depth fs (USB p) False = Some r"
    unfolding aggregated_interfaces_def by (rule aggregate_terminates)
next
  assume "aggregated_interfaces depth fs (USB p) False = Some (Inr found)"
  then have "aggregate depth fs False (USB p) [] = Some (Inr found)"
    by (simp add: aggregated_interfaces_def)
  from aggregate_sound [OF this] obtain children order iss where
    h: "Container_values fs (USB p) = Inr children" "visits fs children order"
      "list_all2 (\<lambda>n own. interfaces fs n = Inr own) order iss"
      "found = [] @ concat (map (kept fs False) iss)" by blast
  have "\<forall>child\<in>set children. is_InterfaceProvider child"
    using h(1) by (auto dest: values_provider)
  with h(2) have "\<forall>n\<in>set order. is_InterfaceProvider n"
    by (rule visits_providers)
  moreover have "map (kept fs False) iss = iss"
    by (induction iss) (simp_all add: kept_def)
  ultimately show "\<exists>children order iss.
         Container_values fs (USB p) = Inr children \<and> visits fs children order \<and>
         (\<forall>n\<in>set order. is_InterfaceProvider n) \<and>
         list_all2 (\<lambda>n own. interfaces fs n = Inr own) order iss \<and> found = concat iss"
    using h by auto
next
  assume h: "longest_directory fs + 3 \<le> depth \<and> Container_values fs (USB p) = Inr children \<and>
    visits fs children order \<and> list_all2 (\<lambda>n own. interfaces fs n = Inr own) order iss"
  have "map (kept fs False) iss = iss"
    by (induction iss) (simp_all add: kept_def)
  moreover have "aggregate depth fs False (USB p) [] =
      Some (Inr ([] @ concat (map (kept fs False) iss)))"
    using h by (intro aggregate_complete [where children = children and order = order]) simp_all
  ultimately show "aggregated_interfaces depth fs (USB p) False = Some (Inr (concat iss))"
    by (simp add: aggregated_interfaces_def)
qed

text \<open>On the example tree the walk is bus 1, port \<open>1-1\<close>, port \<open>1-1.2\<close>, and the three
  interfaces come in this order.\<close>

lemma aggregated_interfaces_walk_fixture:
  "aggregated_interfaces (longest_directory fixture + 3) fixture usb False =
     Some (Inr [Interface ''/sys/bus/usb/devices/usb1/1-0:1.0'',
                Interface ''/sys/bus/usb/devices/usb1/1-1/1-1:1.0'',
                Interface ''/sys/bus/usb/devices/usb1/1-1/1-1.2/1-1.2:1.0''])"
  using aggregated_interfaces_walk [of fixture "longest_directory fixture + 3"
      "''/sys/bus/usb/devices''" "[]" "[bus1]" "[bus1, port1, port12]"
      "[[Interface ''/sys/bus/usb/devices/usb1/1-0:1.0''],
        [Interface ''/sys/bus/usb/devices/usb1/1-1/1-1:1.0''],
        [Interface ''/sys/bus/usb/devices/usb1/1-1/1-1.2/1-1.2:1.0'']]"]
    fixture_values(1) fixture_visits fixture_interfaces
  by (simp add: usb_def)

text \<open>
  C8. The list returned is to hold the interfaces of every \<open>Bus\<close> and \<open>Port\<close> of the
  subtree of the root. The program misses the ports from 10 on and what is below
  them: on the hub with ten ports, port 10 of the bus and port 10 of the hub on port 1
  are directories with one interface directory each, and \<open>self['10']\<close> returns the
  port on each of them, but the walk comes by bus 1 and port \<open>1-1\<close> only and the list
  returned holds the interface of port \<open>1-1\<close> alone. \<open>Bus.__iter__\<close> and
  \<open>Port.__iter__\<close> do not yield the key 10, and \<open>interfaces\<close> on port 10 itself
  returns nothing for \<open>1-10:1.0\<close>: the patterns have a single \<open>\d\<close> for each number.
\<close>

theorem aggregated_interfaces_misses_port_10:
  "isdir hub ''/h/usb1/1-10'' \<and> isdir hub ''/h/usb1/1-10/1-10:1.0'' \<and>
   isdir hub ''/h/usb1/1-1/1-1.10'' \<and> isdir hub ''/h/usb1/1-1/1-1.10/1-1.10:1.0'' \<and>
   spec_interface_name ''1-10:1.0'' \<and> spec_interface_name ''1-1.10:1.0'' \<and>
   node_getitem hub hub_bus ''10'' = Inr (Port ''10'' hub_bus ''/h/usb1/1-10'') \<and>
   node_getitem hub hub_port1 ''10'' = Inr (Port ''10'' hub_port1 ''/h/usb1/1-1/1-1.10'') \<and>
   Container_values hub (USB ''/h'') = Inr [hub_bus] \<and>
   Container_values hub hub_bus = Inr [hub_port1] \<and>
   Container_values hub hub_port1 = Inr [] \<and>
   interfaces hub (Port ''10'' hub_bus ''/h/usb1/1-10'') = Inr [] \<and>
   aggregated_interfaces (longest_directory hub + 3) hub (USB ''/h'') False =
     Some (Inr [Interface ''/h/usb1/1-1/1-1:1.0''])"
proof -
  have dirs: "isdir hub ''/h/usb1/1-10'' \<and> isdir hub ''/h/usb1/1-10/1-10:1.0'' \<and>
      isdir hub ''/h/usb1/1-1/1-1.10'' \<and> isdir hub ''/h/usb1/1-1/1-1.10/1-1.10:1.0''"
    by (simp add: hub_def fs_defs)
  have names: "spec_interface_name ''1-10:1.0'' \<and> spec_interface_name ''1-1.10:1.0''"
    by (simp add: spec_interface_name_def spec_device_path_def digits1_def isdigit_def)
  have get: "node_getitem hub hub_bus ''10'' = Inr (Port ''10'' hub_bus ''/h/usb1/1-10'') \<and>
      node_getitem hub hub_port1 ''10'' = Inr (Port ''10'' hub_port1 ''/h/usb1/1-1/1-1.10'')"
    by (simp add: Bus_getitem_def Port_getitem_def Port_init_def hub_def node_defs fs_defs
        py_defs)
  have none: "interfaces hub (Port ''10'' hub_bus ''/h/usb1/1-10'') = Inr []"
    by (simp add: interfaces_def hub_def node_defs fs_defs py_defs rx_defs)
  have "aggregate (longest_directory hub + 3) hub False (USB ''/h'') [] =
      Some (Inr ([] @ concat (map (kept hub False) [[], [Interface ''/h/usb1/1-1/1-1:1.0'']])))"
    by (rule aggregate_complete [OF hub_values(1) hub_visits]) (simp_all add: hub_interfaces)
  then have "aggregated_interfaces (longest_directory hub + 3) hub (USB ''/h'') False =
      Some (Inr [Interface ''/h/usb1/1-1/1-1:1.0''])"
    by (simp add: aggregated_interfaces_def kept_def)
  with dirs names get none hub_values show ?thesis by simp
qed

lemma list_all2_all_empty:
  "\<forall>n\<in>set order. interfaces fs n = Inr [] \<Longrightarrow>
   list_all2 (\<lambda>n own. interfaces fs n = Inr own) order (map (\<lambda>n. []) order)"
  by (induction order) simp_all

lemma kept_Nil: "kept fs tty [] = []"
  by (simp add: kept_def)

lemma concat_kept_empty: "concat (map (kept fs tty) (map (\<lambda>n. []) order)) = []"
  by (induction order) (simp_all add: kept_Nil)

lemma kept_has_tty: "iface \<in> set (concat (map (kept fs True) iss)) \<Longrightarrow> has_tty fs iface"
  by (induction iss) (auto simp: kept_def)

text \<open>
  C9. With \<open>tty\<close> set, \<open>iface.tty\<close> returns a name for every interface of the list
  returned. With or without it, the call ends once the depth allowed exceeds the
  longest directory path by three, and when the walk from the root exists and
  \<open>interfaces\<close> returns the empty list on each of its nodes, the call returns the empty
  list.
\<close>

theorem aggregated_interfaces_tty_only:
  "(longest_directory fs + 3 \<le> depth \<longrightarrow>
      (\<exists>r. aggregated_interfaces depth fs (USB p) tty = Some r)) \<and>
   (aggregated_interfaces depth fs (USB p) True = Some (Inr found) \<longrightarrow>
      (\<forall>iface\<in>set found. \<exists>t. Interface_tty fs iface = Some (Inr (Some t)))) \<and>
   (longest_directory fs + 3 \<le> depth \<and> Container_values fs (USB p) = Inr children \<and>
    visits fs children order \<and> (\<forall>n\<in>set order. interfaces fs n = Inr []) \<longrightarrow>
      aggregated_interfaces depth fs (USB p) tty = Some (Inr []))"
proof (intro conjI impI)
  assume "longest_directory fs + 3 \<le> depth"
  then show "\<exists>r. aggregated_interfaces depth fs (USB p) tty = Some r"
    unfolding aggregated_interfaces_def by (rule aggregate_terminates)
next
  assume "aggregated_interfaces depth fs (USB p) True = Some (Inr found)"
  then have "aggregate depth fs True (USB p) [] = Some (Inr found)"
    by (simp add: aggregated_interfaces_def)
  from aggregate_sound [OF this] obtain children' order' iss where
    "Container_values fs (USB p) = Inr children'" "visits fs children' order'"
    "list_all2 (\<lambda>n own. interfaces fs n = Inr own) order' iss"
    and found: "found = [] @ concat (map (kept fs True) iss)" by blast
  show "\<forall>iface\<in>set found. \<exists>t. Interface_tty fs iface = Some (Inr (Some t))"
  proof
    fix iface
    assume "iface \<in> set found"
    with found have "iface \<in> set (concat (map (kept fs True) iss))" by simp
    then have "has_tty fs iface" by (rule kept_has_tty)
    then show "\<exists>t. Interface_tty fs iface = Some (Inr (Some t))"
      by (simp only: has_tty_iff)
  qed
next
  assume h: "longest_directory fs + 3 \<le> depth \<and> Container_values fs (USB p) = Inr children \<and>
    visits fs children order \<and> (\<forall>n\<in>set order. interfaces fs n = Inr [])"
  then have d: "longest_directory fs + 3 \<le> depth" and c: "Container_values fs (USB p) = Inr children"
    and v: "visits fs children order" and e: "\<forall>n\<in>set order. interfaces fs n = Inr []"
    by blast+
  have all: "list_all2 (\<lambda>n own. interfaces fs n = Inr own) order (map (\<lambda>n. []) order)"
    using e by (rule list_all2_all_empty)
  have t: "tty \<longrightarrow> (\<forall>found\<in>set (map (\<lambda>n. []) order). \<forall>iface\<in>set found.
      \<exists>v. Interface_tty fs iface = Some (Inr v))"
    by simp
  have "aggregate depth fs tty (USB p) [] =
      Some (Inr ([] @ concat (map (kept fs tty) (map (\<lambda>n. []) order))))"
    using c v all t d by (rule aggregate_complete)
  then show "aggregated_interfaces depth fs (USB p) tty = Some (Inr [])"
    by (simp only: aggregated_interfaces_def concat_kept_empty append_Nil)
qed

lemma fixture_aggregated_tty:
  "aggregated_interfaces (longest_directory fixture + 3) fixture usb True =
     Some (Inr [Interface ''/sys/bus/usb/devices/usb1/1-1/1-1.2/1-1.2:1.0''])"
proof -
  have "aggregate (longest_directory fixture + 3) fixture True usb [] =
      Some (Inr ([] @ concat (map (kept fixture True)
        [[Interface ''/sys/bus/usb/devices/usb1/1-0:1.0''],
         [Interface ''/sys/bus/usb/devices/usb1/1-1/1-1:1.0''],
         [Interface ''/sys/bus/usb/devices/usb1/1-1/1-1.2/1-1.2:1.0'']])))"
    by (rule aggregate_complete [OF fixture_values(1) fixture_visits])
       (simp_all add: fixture_interfaces fixture_tty)
  then show ?thesis
    by (simp add: aggregated_interfaces_def kept_def has_tty_def fixture_tty)
qed

text \<open>On the example tree only the interface of port \<open>1-1.2\<close> has a serial device; the
  tree without interface directories gives the empty list.\<close>

theorem aggregated_interfaces_tty_only_witness:
  "aggregated_interfaces (longest_directory fixture + 3) fixture usb True =
     Some (Inr [Interface ''/sys/bus/usb/devices/usb1/1-1/1-1.2/1-1.2:1.0'']) \<and>
   Interface_tty fixture (Interface ''/sys/bus/usb/devices/usb1/1-1/1-1.2/1-1.2:1.0'') =
     Some (Inr (Some ''ttyUSB0'')) \<and>
   Container_values bare (USB ''/d'') = Inr [Bus ''1'' (USB ''/d'') ''/d/usb1''] \<and>
   visits bare [Bus ''1'' (USB ''/d'') ''/d/usb1'']
     [Bus ''1'' (USB ''/d'') ''/d/usb1'',
      Port ''1'' (Bus ''1'' (USB ''/d'') ''/d/usb1'') ''/d/usb1/1-1''] \<and>
   interfaces bare (Bus ''1'' (USB ''/d'') ''/d/usb1'') = Inr [] \<and>
   interfaces bare (Port ''1'' (Bus ''1'' (USB ''/d'') ''/d/usb1'') ''/d/usb1/1-1'') = Inr [] \<and>
   aggregated_interfaces (longest_directory bare + 3) bare (USB ''/d'') True = Some (Inr []) \<and>
   aggregated_interfaces (longest_directory bare + 3) bare (USB ''/d'') False = Some (Inr [])"
  using aggregated_interfaces_tty_only [of fixture "longest_directory fixture + 3"
      "''/sys/bus/usb/devices''" True
      "[Interface ''/sys/bus/usb/devices/usb1/1-1/1-1.2/1-1.2:1.0'']" "[]" "[]"]
    aggregated_interfaces_tty_only [of bare "longest_directory bare + 3" "''/d''" True "[]"
      "[Bus ''1'' (USB ''/d'') ''/d/usb1'']"
      "[Bus ''1'' (USB ''/d'') ''/d/usb1'',
        Port ''1'' (Bus ''1'' (USB ''/d'') ''/d/usb1'') ''/d/usb1/1-1'']"]
    aggregated_interfaces_tty_only [of bare "longest_directory bare + 3" "''/d''" False "[]"
      "[Bus ''1'' (USB ''/d'') ''/d/usb1'']"
      "[Bus ''1'' (USB ''/d'') ''/d/usb1'',
        Port ''1'' (Bus ''1'' (USB ''/d'') ''/d/usb1'') ''/d/usb1/1-1'']"]
    fixture_aggregated_tty fixture_tty(3) bare_values(1) bare_visits bare_interfaces
  by (simp add: usb_def)

end
